theory Spec2Isabelle
  imports Main
begin

section \<open>Values, objects and the heap\<close>

text \<open>
  The two functions of the repository, \<open>shallowCopy\<close> and \<open>deepCopy\<close>, work on
  JavaScript values. A value is either a primitive, for which
  \<open>source === null || typeof source !== "object"\<close> holds, or a reference to an object
  of the heap. Object identity (\<open>===\<close> on objects) is equality of addresses.

  Numbers are abstracted to integers (no \<open>NaN\<close>, no signed zero). A function value has
  \<open>typeof\<close> equal to \<open>"function"\<close>, so both copy functions treat it as a primitive; it
  is kept as an opaque token.
\<close>

text \<open>
  The symbols: \<open>Symbol.unscopables\<close>, the one well-known symbol that an assignment to a
  new array treats in its own way, and the other symbols, numbered.
\<close>

datatype symbol = Unscopables | Sym nat

datatype prim =
    Undefined
  | Null
  | Bool bool
  | Num int
  | Str string
  | Symbol symbol
  | BigInt int
  | Function nat

datatype val = Prim prim | Ref nat

text \<open>
  A property key is a string or a symbol. The strings that are array indices are kept
  apart (\<open>KIdx\<close>), as JavaScript itself orders them first and numerically among the own
  keys of an object, and as arrays treat them specially.
\<close>

datatype pkey = KIdx nat | KStr string | KSym symbol

text \<open>
  The own properties of an object, in the order of \<open>Reflect.ownKeys\<close>: key, value and
  the enumerable attribute. Only data properties are modelled (no getters or setters).
\<close>

type_synonym props = "(pkey \<times> val \<times> bool) list"

text \<open>
  The kinds of object that \<open>deepCopy\<close> tells apart with \<open>instanceof\<close> and
  \<open>Array.isArray\<close>: a \<open>Date\<close> with its time value, a \<open>RegExp\<close> with its source text,
  flags and \<open>lastIndex\<close>, a \<open>Set\<close> with its elements in iteration order, a \<open>Map\<close> with
  its entries in iteration order, and every other object, with the answer of
  \<open>Array.isArray\<close> and its own properties. An array carries its \<open>length\<close> as the own,
  non-enumerable property that it is in JavaScript.
\<close>

datatype obj =
    ODate int
  | ORegExp string string int
  | OSet "val list"
  | OMap "(val \<times> val) list"
  | OObj bool props

type_synonym heap = "obj list"

definition deref :: "heap \<Rightarrow> nat \<Rightarrow> obj option" where
  "deref h a = (if a < length h then Some (h ! a) else None)"

definition upd_obj :: "nat \<Rightarrow> (obj \<Rightarrow> obj) \<Rightarrow> heap \<Rightarrow> heap" where
  "upd_obj a f h = (if a < length h then h[a := f (h ! a)] else h)"

section \<open>Property assignment\<close>

definition has_key :: "pkey \<Rightarrow> props \<Rightarrow> bool" where
  "has_key k ps = (k \<in> fst ` set ps)"

text \<open>Writing an existing property keeps its place and its attributes.\<close>

fun upd_prop :: "pkey \<Rightarrow> val \<Rightarrow> props \<Rightarrow> props" where
  "upd_prop k v [] = []"
| "upd_prop k v ((k', v', e) # ps) =
     (if k = k' then (k', v, e) # ps else (k', v', e) # upd_prop k v ps)"

text \<open>
  A new property is enumerable and takes its place in the own-key order: array indices
  ascending, then strings in creation order, then symbols in creation order.
\<close>

fun key_before :: "pkey \<Rightarrow> pkey \<Rightarrow> bool" where
  "key_before (KIdx i) (KIdx j) = (i < j)"
| "key_before (KIdx i) _ = True"
| "key_before (KStr s) (KSym n) = True"
| "key_before _ _ = False"

fun ins_prop :: "pkey \<Rightarrow> val \<Rightarrow> props \<Rightarrow> props" where
  "ins_prop k v [] = [(k, v, True)]"
| "ins_prop k v ((k', v', e) # ps) =
     (if key_before k k' then (k, v, True) # (k', v', e) # ps
      else (k', v', e) # ins_prop k v ps)"

definition put_prop :: "pkey \<Rightarrow> val \<Rightarrow> props \<Rightarrow> props" where
  "put_prop k v ps = (if has_key k ps then upd_prop k v ps else ins_prop k v ps)"

text \<open>The value of an own property; \<open>undefined\<close> for a key that the object does not have.\<close>

definition prop_val :: "props \<Rightarrow> pkey \<Rightarrow> val" where
  "prop_val ps k = (case map_of ps k of Some (v, e) \<Rightarrow> v | None \<Rightarrow> Prim Undefined)"

definition array_len :: "props \<Rightarrow> int" where
  "array_len ps = (case prop_val ps (KStr ''length'') of Prim (Num n) \<Rightarrow> n | _ \<Rightarrow> 0)"

fun below_len :: "int \<Rightarrow> pkey \<times> val \<times> bool \<Rightarrow> bool" where
  "below_len n (KIdx i, p) = (int i < n)"
| "below_len n (k, p) = True"

datatype error = StackOverflow | RangeError | BadRef

text \<open>
  \<open>target[key] = value\<close> on the properties of a container made by \<open>[]\<close> or \<open>{}\<close>.
  On an array, writing an index at or beyond \<open>length\<close> raises \<open>length\<close>, and writing
  \<open>length\<close> itself drops the indices at or beyond the new length. A \<open>length\<close> that is not
  a number in the range of array lengths is answered with \<open>RangeError\<close>, what JavaScript
  does for a value without such a numeric reading; the \<open>length\<close> of an array of a
  JavaScript heap is always such a number.

  The key \<open>__proto__\<close> is the one key for which \<open>Object.prototype\<close> has a setter: the
  assignment calls it, and the container gets no own property. What the setter does to
  the prototype of the container is outside the model, which has no prototypes.

  The key \<open>Symbol.unscopables\<close> is the one key that \<open>Array.prototype\<close> holds as a
  read-only property: the assignment to a new array makes no own property. The source
  file is a script without a \<open>"use strict"\<close> directive, so the assignment that fails is
  passed over in silence. Every other property of \<open>Object.prototype\<close> and
  \<open>Array.prototype\<close> is a writable data property, over which an assignment makes an own
  property of the container.
\<close>

definition assign_props :: "bool \<Rightarrow> pkey \<Rightarrow> val \<Rightarrow> props \<Rightarrow> error + props" where
  "assign_props is_arr k v ps =
     (if k = KStr ''__proto__'' then Inr ps
      else if \<not> is_arr then Inr (put_prop k v ps)
      else (case k of
          KIdx i \<Rightarrow>
            Inr (if array_len ps \<le> int i
                 then upd_prop (KStr ''length'') (Prim (Num (int i + 1))) (put_prop k v ps)
                 else put_prop k v ps)
        | KStr s \<Rightarrow>
            if s = ''length'' then
              (case v of
                 Prim (Num n) \<Rightarrow>
                   if 0 \<le> n \<and> n < 2 ^ 32
                   then Inr (upd_prop k v (filter (below_len n) ps))
                   else Inl RangeError
               | _ \<Rightarrow> Inl RangeError)
            else Inr (put_prop k v ps)
        | KSym y \<Rightarrow> if y = Unscopables then Inr ps else Inr (put_prop k v ps)))"

text \<open>\<open>source[key]\<close> for an own key of the object at \<open>a\<close>.\<close>

definition get_prop :: "heap \<Rightarrow> nat \<Rightarrow> pkey \<Rightarrow> val" where
  "get_prop h a k =
     (case deref h a of Some (OObj b ps) \<Rightarrow> prop_val ps k | _ \<Rightarrow> Prim Undefined)"

text \<open>\<open>Array.isArray(source) ? [] : {}\<close>\<close>

definition new_container :: "bool \<Rightarrow> obj" where
  "new_container is_arr =
     OObj is_arr (if is_arr then [(KStr ''length'', Prim (Num 0), False)] else [])"

definition is_array :: "obj \<Rightarrow> bool" where
  "is_array ob = (case ob of OObj b ps \<Rightarrow> b | _ \<Rightarrow> False)"

text \<open>
  The keys that \<open>for (const key in source)\<close> visits and that pass the \<open>hasOwnProperty\<close>
  test: the own enumerable string keys, in own-key order.
\<close>

fun for_in_key :: "pkey \<times> val \<times> bool \<Rightarrow> bool" where
  "for_in_key (KSym n, v, e) = False"
| "for_in_key (k, v, e) = e"

definition for_in_keys :: "obj \<Rightarrow> pkey list" where
  "for_in_keys ob = (case ob of OObj b ps \<Rightarrow> map fst (filter for_in_key ps) | _ \<Rightarrow> [])"

section \<open>Results\<close>

text \<open>
  The messages of the source are Chinese string literals; each is a constructor here:
  \<open>MsgShallowFail\<close> "shallow copy failed: the source must be an object or an array",
  \<open>MsgShallowOk\<close> "shallow copy succeeded", \<open>MsgPrimitive\<close> "a primitive needs no copy",
  \<open>MsgDate\<close>, \<open>MsgRegExp\<close>, \<open>MsgSet\<close>, \<open>MsgMap\<close> "deep copy succeeded (date / regular
  expression / Set / Map)", \<open>MsgCycle\<close> "deep copy succeeded (circular reference)",
  \<open>MsgObject\<close> "deep copy succeeded (object/array)".
\<close>

datatype msg =
    MsgShallowFail | MsgShallowOk
  | MsgPrimitive | MsgDate | MsgRegExp | MsgSet | MsgMap | MsgCycle | MsgObject

record CloneResult =
  status :: bool
  msg :: msg
  data :: val

section \<open>shallowCopy\<close>

definition assign :: "nat \<Rightarrow> pkey \<Rightarrow> val \<Rightarrow> heap \<Rightarrow> error + heap" where
  "assign t k v h =
     (case deref h t of
        Some (OObj b ps) \<Rightarrow>
          (case assign_props b k v ps of
             Inl e \<Rightarrow> Inl e
           | Inr ps' \<Rightarrow> Inr (h[t := OObj b ps']))
      | _ \<Rightarrow> Inl BadRef)"

fun shallow_loop :: "nat \<Rightarrow> nat \<Rightarrow> pkey list \<Rightarrow> heap \<Rightarrow> error + heap" where
  "shallow_loop a t [] h = Inr h"
| "shallow_loop a t (k # ks) h =
     (case assign t k (get_prop h a k) h of
        Inl e \<Rightarrow> Inl e
      | Inr h' \<Rightarrow> shallow_loop a t ks h')"

definition shallowCopy :: "val \<Rightarrow> heap \<Rightarrow> error + (CloneResult \<times> heap)" where
  "shallowCopy source h =
     (case source of
        Prim p \<Rightarrow> Inr (\<lparr>status = False, msg = MsgShallowFail, data = source\<rparr>, h)
      | Ref a \<Rightarrow>
          (case deref h a of
             None \<Rightarrow> Inl BadRef
           | Some ob \<Rightarrow>
               let t = length h;
                   h1 = h @ [new_container (is_array ob)]
               in (case shallow_loop a t (for_in_keys ob) h1 of
                     Inl e \<Rightarrow> Inl e
                   | Inr h2 \<Rightarrow> Inr (\<lparr>status = True, msg = MsgShallowOk, data = Ref t\<rparr>, h2))))"

section \<open>deepCopy\<close>

text \<open>
  The state of one traversal: the heap and the \<open>WeakMap\<close> that \<open>deepCopy\<close> passes to its
  recursive calls, keyed by the identity of the source object.
\<close>

record state =
  heap :: heap
  memo :: "nat \<rightharpoonup> val"

definition alloc :: "obj \<Rightarrow> state \<Rightarrow> nat \<times> state" where
  "alloc ob s = (length (heap s), s\<lparr>heap := heap s @ [ob]\<rparr>)"

definition memo_set :: "nat \<Rightarrow> val \<Rightarrow> state \<Rightarrow> state" where
  "memo_set a v s = s\<lparr>memo := (memo s)(a \<mapsto> v)\<rparr>"

text \<open>\<open>target.add(value)\<close>: a value already in the set is not added again.\<close>

definition set_add :: "val \<Rightarrow> obj \<Rightarrow> obj" where
  "set_add v ob =
     (case ob of OSet ys \<Rightarrow> OSet (if v \<in> set ys then ys else ys @ [v]) | _ \<Rightarrow> ob)"

text \<open>\<open>target.set(key, value)\<close>: an existing key keeps its place and takes the new value.\<close>

fun upd_entry :: "val \<Rightarrow> val \<Rightarrow> (val \<times> val) list \<Rightarrow> (val \<times> val) list" where
  "upd_entry k v [] = [(k, v)]"
| "upd_entry k v ((k', v') # kvs) =
     (if k = k' then (k', v) # kvs else (k', v') # upd_entry k v kvs)"

definition map_set :: "val \<Rightarrow> val \<Rightarrow> obj \<Rightarrow> obj" where
  "map_set k v ob = (case ob of OMap kvs \<Rightarrow> OMap (upd_entry k v kvs) | _ \<Rightarrow> ob)"

definition set_lastIndex :: "int \<Rightarrow> obj \<Rightarrow> obj" where
  "set_lastIndex i ob = (case ob of ORegExp p f j \<Rightarrow> ORegExp p f i | _ \<Rightarrow> ob)"

type_synonym copier = "val \<Rightarrow> state \<Rightarrow> error + (CloneResult \<times> state)"

text \<open>
  The three \<open>forEach\<close> loops, over the recursive call \<open>rec\<close>. The elements, entries and
  keys are those the source object has when the loop starts; \<open>source[key]\<close> is read when
  its key is reached. An exception of the callback ends the loop.
\<close>

fun forEach_set :: "copier \<Rightarrow> nat \<Rightarrow> val list \<Rightarrow> state \<Rightarrow> error + state" where
  "forEach_set rec t [] s = Inr s"
| "forEach_set rec t (x # xs) s =
     (case rec x s of
        Inl e \<Rightarrow> Inl e
      | Inr (copyResult, s1) \<Rightarrow>
          forEach_set rec t xs (s1\<lparr>heap := upd_obj t (set_add (data copyResult)) (heap s1)\<rparr>))"

fun forEach_map :: "copier \<Rightarrow> nat \<Rightarrow> (val \<times> val) list \<Rightarrow> state \<Rightarrow> error + state" where
  "forEach_map rec t [] s = Inr s"
| "forEach_map rec t ((k, v) # kvs) s =
     (case rec k s of
        Inl e \<Rightarrow> Inl e
      | Inr (keyResult, s1) \<Rightarrow>
          (case rec v s1 of
             Inl e \<Rightarrow> Inl e
           | Inr (valueResult, s2) \<Rightarrow>
               forEach_map rec t kvs
                 (s2\<lparr>heap := upd_obj t (map_set (data keyResult) (data valueResult)) (heap s2)\<rparr>)))"

fun forEach_keys :: "copier \<Rightarrow> nat \<Rightarrow> nat \<Rightarrow> pkey list \<Rightarrow> state \<Rightarrow> error + state" where
  "forEach_keys rec a t [] s = Inr s"
| "forEach_keys rec a t (k # ks) s =
     (case rec (get_prop (heap s) a k) s of
        Inl e \<Rightarrow> Inl e
      | Inr (copyResult, s1) \<Rightarrow>
          (case assign t k (data copyResult) (heap s1) of
             Inl e \<Rightarrow> Inl e
           | Inr h2 \<Rightarrow> forEach_keys rec a t ks (s1\<lparr>heap := h2\<rparr>)))"

text \<open>
  One call of \<open>deepCopy\<close> on the object at \<open>a\<close>, in the order of the source: \<open>Date\<close>,
  \<open>RegExp\<close>, \<open>Set\<close>, \<open>Map\<close>, then the look-up in the \<open>WeakMap\<close>, then the array or object,
  where \<open>Reflect.ownKeys(source)\<close> is the list of the keys of its own properties.
\<close>

definition deepCopy_obj :: "copier \<Rightarrow> nat \<Rightarrow> obj \<Rightarrow> state \<Rightarrow> error + (CloneResult \<times> state)" where
  "deepCopy_obj rec a ob s =
     (case ob of
        ODate tv \<Rightarrow>
          (let (t, s1) = alloc (ODate tv) s
           in Inr (\<lparr>status = True, msg = MsgDate, data = Ref t\<rparr>, s1))
      | ORegExp p f li \<Rightarrow>
          (let (newReg, s1) = alloc (ORegExp p f 0) s;
               s2 = s1\<lparr>heap := upd_obj newReg (set_lastIndex li) (heap s1)\<rparr>
           in Inr (\<lparr>status = True, msg = MsgRegExp, data = Ref newReg\<rparr>, s2))
      | OSet xs \<Rightarrow>
          (let (t, s1) = alloc (OSet []) s;
               s2 = memo_set a (Ref t) s1
           in (case forEach_set rec t xs s2 of
                 Inl e \<Rightarrow> Inl e
               | Inr s3 \<Rightarrow> Inr (\<lparr>status = True, msg = MsgSet, data = Ref t\<rparr>, s3)))
      | OMap kvs \<Rightarrow>
          (let (t, s1) = alloc (OMap []) s;
               s2 = memo_set a (Ref t) s1
           in (case forEach_map rec t kvs s2 of
                 Inl e \<Rightarrow> Inl e
               | Inr s3 \<Rightarrow> Inr (\<lparr>status = True, msg = MsgMap, data = Ref t\<rparr>, s3)))
      | OObj b ps \<Rightarrow>
          (case memo s a of
             Some cached \<Rightarrow> Inr (\<lparr>status = True, msg = MsgCycle, data = cached\<rparr>, s)
           | None \<Rightarrow>
               (let (t, s1) = alloc (new_container b) s;
                    s2 = memo_set a (Ref t) s1
                in (case forEach_keys rec a t (map fst ps) s2 of
                      Inl e \<Rightarrow> Inl e
                    | Inr s3 \<Rightarrow> Inr (\<lparr>status = True, msg = MsgObject, data = Ref t\<rparr>, s3)))))"

text \<open>
  \<open>deepCopy(source, map)\<close> with a call stack that has room for \<open>n\<close> nested calls of
  \<open>deepCopy\<close>. Without room, the call ends with the engine's \<open>RangeError\<close> for an
  exhausted call stack, here \<open>StackOverflow\<close>. A recursion that never ends in the source
  is a call that answers \<open>StackOverflow\<close> for every \<open>n\<close>.
\<close>

primrec deepCopy :: "nat \<Rightarrow> copier" where
  "deepCopy 0 = (\<lambda>source s. Inl StackOverflow)"
| "deepCopy (Suc n) = (\<lambda>source s.
     (case source of
        Prim p \<Rightarrow> Inr (\<lparr>status = True, msg = MsgPrimitive, data = source\<rparr>, s)
      | Ref a \<Rightarrow>
          (case deref (heap s) a of
             None \<Rightarrow> Inl BadRef
           | Some ob \<Rightarrow> deepCopy_obj (deepCopy n) a ob s)))"

text \<open>The call \<open>deepCopy(source)\<close> of a client, with the default \<open>new WeakMap()\<close>.\<close>

definition deepClone :: "nat \<Rightarrow> val \<Rightarrow> heap \<Rightarrow> error + (CloneResult \<times> heap)" where
  "deepClone n source h =
     (case deepCopy n source \<lparr>heap = h, memo = Map.empty\<rparr> of
        Inl e \<Rightarrow> Inl e
      | Inr (r, s) \<Rightarrow> Inr (r, heap s))"

section \<open>Notions for the statements and proofs\<close>

subsection \<open>Heaps that JavaScript can build\<close>

text \<open>
  In a heap of a JavaScript program every reference leads to an object, a \<open>Set\<close> holds
  no value twice, a \<open>Map\<close> holds no key twice, and an array has its \<open>length\<close> property,
  a number in the range of array lengths, above all its indices. \<open>wf_heap\<close> says this of
  a heap of the model.

  It also says that no object has an own property \<open>__proto__\<close>, which a computed key,
  \<open>Object.defineProperty\<close> and \<open>JSON.parse\<close> can make and an assignment can not. The copy
  functions hand that key to the setter of \<open>Object.prototype\<close>, which changes the prototype
  of the clone and throws \<open>TypeError\<close> for a prototype chain with a cycle, as for
  \<open>a = {["__proto__"]: null}; a["__proto__"] = a\<close>; the assignments that follow meet the
  properties of the new prototype. The model has no prototypes, and such a heap is not in
  its reach. And it says that no array has an own property \<open>Symbol.unscopables\<close>, which
  an assignment can not make on an array either.
\<close>

definition val_ok :: "nat \<Rightarrow> val \<Rightarrow> bool" where
  "val_ok L v = (case v of Prim p \<Rightarrow> True | Ref a \<Rightarrow> a < L)"

fun index_ok :: "int \<Rightarrow> pkey \<Rightarrow> bool" where
  "index_ok n (KIdx i) = (int i < n)"
| "index_ok n k = True"

definition valid_length :: "val \<Rightarrow> bool" where
  "valid_length v = (case v of Prim (Num n) \<Rightarrow> 0 \<le> n \<and> n < 2 ^ 32 | _ \<Rightarrow> False)"

fun wf_obj :: "nat \<Rightarrow> obj \<Rightarrow> bool" where
  "wf_obj L (ODate tv) = True"
| "wf_obj L (ORegExp p f li) = True"
| "wf_obj L (OSet xs) = (distinct xs \<and> list_all (val_ok L) xs)"
| "wf_obj L (OMap kvs) =
     (distinct (map fst kvs) \<and> list_all (val_ok L) (map fst kvs) \<and> list_all (val_ok L) (map snd kvs))"
| "wf_obj L (OObj b ps) =
     (list_all (val_ok L) (map (fst \<circ> snd) ps) \<and> \<not> has_key (KStr ''__proto__'') ps \<and>
      (b \<longrightarrow> has_key (KStr ''length'') ps \<and> valid_length (prop_val ps (KStr ''length'')) \<and>
           list_all (index_ok (array_len ps)) (map fst ps) \<and> \<not> has_key (KSym Unscopables) ps))"

definition wf_heap :: "heap \<Rightarrow> bool" where
  "wf_heap h = list_all (wf_obj (length h)) h"

text \<open>The objects that reach the last branch of \<open>deepCopy\<close>: arrays and other objects.\<close>

definition generic :: "heap \<Rightarrow> nat \<Rightarrow> bool" where
  "generic h a = (case deref h a of Some (OObj b ps) \<Rightarrow> True | _ \<Rightarrow> False)"

subsection \<open>Unchanged objects\<close>

text \<open>
  \<open>keeps L h h'\<close>: the heap \<open>h'\<close> is at least as long as \<open>h\<close> and holds the same objects at
  the addresses below \<open>L\<close>. A copier is \<open>framed\<close> when a call that returns leaves every
  object that existed before the call as it was.
\<close>

definition keeps :: "nat \<Rightarrow> heap \<Rightarrow> heap \<Rightarrow> bool" where
  "keeps L h h' = (length h \<le> length h' \<and> take L h' = take L h)"

definition framed :: "copier \<Rightarrow> bool" where
  "framed rec = (\<forall>v s r s'. rec v s = Inr (r, s') \<longrightarrow> keeps (length (heap s)) (heap s) (heap s'))"

subsection \<open>Structural equality\<close>

text \<open>
  Two values are structurally equal to depth \<open>d\<close> in a heap when they are the same
  primitive, or references to objects of the same kind with equal contents: the same time
  value; the same source text, flags and \<open>lastIndex\<close>; elements, or entries, that are
  pairwise equal to depth \<open>d - 1\<close> in iteration order; the same answer of \<open>Array.isArray\<close>,
  the same set of own keys and, under each key, values equal to depth \<open>d - 1\<close>. With
  \<open>attrs\<close> the enumerable attribute of each key is compared as well, as it is by a
  comparison that walks the enumerable keys (\<open>Object.keys\<close>, \<open>for-in\<close>,
  \<open>JSON.stringify\<close>). Equality to every depth is structural equality of the two object
  graphs, cycles included.
\<close>

definition prop_enum :: "props \<Rightarrow> pkey \<Rightarrow> bool" where
  "prop_enum ps k = (case map_of ps k of Some (v, e) \<Rightarrow> e | None \<Rightarrow> False)"

fun entry_rel :: "(val \<Rightarrow> val \<Rightarrow> bool) \<Rightarrow> val \<times> val \<Rightarrow> val \<times> val \<Rightarrow> bool" where
  "entry_rel eq (k, v) (k', v') = (eq k k' \<and> eq v v')"

fun obj_equal :: "bool \<Rightarrow> (val \<Rightarrow> val \<Rightarrow> bool) \<Rightarrow> obj \<Rightarrow> obj \<Rightarrow> bool" where
  "obj_equal attrs eq (ODate x) (ODate y) = (x = y)"
| "obj_equal attrs eq (ORegExp p f i) (ORegExp p' f' i') = (p = p' \<and> f = f' \<and> i = i')"
| "obj_equal attrs eq (OSet xs) (OSet ys) = list_all2 eq xs ys"
| "obj_equal attrs eq (OMap kvs) (OMap kws) = list_all2 (entry_rel eq) kvs kws"
| "obj_equal attrs eq (OObj b ps) (OObj b' qs) =
     (b = b' \<and> set (map fst ps) = set (map fst qs) \<and>
      list_all (\<lambda>k. eq (prop_val ps k) (prop_val qs k) \<and>
                     (attrs \<longrightarrow> prop_enum ps k = prop_enum qs k)) (map fst ps))"
| "obj_equal attrs eq _ _ = False"

primrec deep_equal :: "bool \<Rightarrow> nat \<Rightarrow> heap \<Rightarrow> val \<Rightarrow> val \<Rightarrow> bool" where
  "deep_equal attrs 0 h v w = True"
| "deep_equal attrs (Suc d) h v w =
     (case v of
        Prim p \<Rightarrow> w = Prim p
      | Ref a \<Rightarrow>
          (case w of
             Prim q \<Rightarrow> False
           | Ref b \<Rightarrow>
               (case deref h a of
                  None \<Rightarrow> False
                | Some x \<Rightarrow>
                    (case deref h b of
                       None \<Rightarrow> False
                     | Some y \<Rightarrow> obj_equal attrs (deep_equal attrs d h) x y))))"

text \<open>
  The attributes of the keys that \<open>target[key] = value\<close> makes in a new container: every
  key is enumerable, but for the \<open>length\<close> that an array is born with.
\<close>

fun enum_ok :: "bool \<Rightarrow> pkey \<times> val \<times> bool \<Rightarrow> bool" where
  "enum_ok b (k, v, e) = (e = (\<not> (b \<and> k = KStr ''length'')))"

subsection \<open>Objects that hold no reference into the source heap\<close>

text \<open>
  \<open>fresh_closed L h\<close>: the objects of \<open>h\<close> at the addresses from \<open>L\<close> on hold primitives
  and references to addresses from \<open>L\<close> on only. When \<open>L\<close> is the size of the heap before
  a copy, no object that the copy made leads back to an object of the source.
\<close>

fun obj_vals :: "obj \<Rightarrow> val list" where
  "obj_vals (ODate tv) = []"
| "obj_vals (ORegExp p f li) = []"
| "obj_vals (OSet xs) = xs"
| "obj_vals (OMap kvs) = map fst kvs @ map snd kvs"
| "obj_vals (OObj b ps) = map (fst \<circ> snd) ps"

definition fresh_val :: "nat \<Rightarrow> val \<Rightarrow> bool" where
  "fresh_val L v = (case v of Prim p \<Rightarrow> True | Ref t \<Rightarrow> L \<le> t)"

definition fresh_obj :: "nat \<Rightarrow> obj \<Rightarrow> bool" where
  "fresh_obj L ob = list_all (fresh_val L) (obj_vals ob)"

definition fresh_closed :: "nat \<Rightarrow> heap \<Rightarrow> bool" where
  "fresh_closed L h = list_all (fresh_obj L) (drop L h)"

definition fresh_inv :: "nat \<Rightarrow> state \<Rightarrow> bool" where
  "fresh_inv L s =
     (L \<le> length (heap s) \<and> fresh_closed L (heap s) \<and>
      (\<forall>a v. memo s a = Some v \<longrightarrow> fresh_val L v))"

definition fresh_good :: "nat \<Rightarrow> copier \<Rightarrow> bool" where
  "fresh_good L rec =
     (\<forall>v s r s'. rec v s = Inr (r, s') \<longrightarrow> fresh_inv L s \<longrightarrow>
        fresh_inv L s' \<and> fresh_val L (data r))"

subsection \<open>The invariant of one traversal\<close>

text \<open>
  A traversal that starts from the heap \<open>h0\<close> with an empty \<open>WeakMap\<close> is followed with a
  relation \<open>R\<close> between the addresses of source objects and the addresses of their clones,
  and the set \<open>P\<close> of the arrays and objects whose copy has begun and not ended. The
  invariant: the source heap is unchanged; sources are old and clones are new; for arrays
  and objects the \<open>WeakMap\<close> and \<open>R\<close> agree; a clone whose copy has ended corresponds to its
  source, kind by kind, with contents related by \<open>R\<close>; no clone has two sources; the
  pending sources are in the \<open>WeakMap\<close>.
\<close>

definition val_rel :: "(nat \<times> nat) set \<Rightarrow> val \<Rightarrow> val \<Rightarrow> bool" where
  "val_rel R v w = (case v of Prim p \<Rightarrow> w = Prim p | Ref a \<Rightarrow> (\<exists>t. w = Ref t \<and> (a, t) \<in> R))"

definition copy_inv :: "heap \<Rightarrow> (nat \<times> nat) set \<Rightarrow> nat set \<Rightarrow> state \<Rightarrow> bool" where
  "copy_inv h0 R P s =
     (keeps (length h0) h0 (heap s) \<and>
      (\<forall>a t. (a, t) \<in> R \<longrightarrow> a < length h0 \<and> length h0 \<le> t \<and> t < length (heap s)) \<and>
      (\<forall>a v. generic h0 a \<longrightarrow> (memo s a = Some v) = (\<exists>t. v = Ref t \<and> (a, t) \<in> R)) \<and>
      (\<forall>a t. (a, t) \<in> R \<longrightarrow> a \<notin> P \<longrightarrow> obj_equal False (val_rel R) (h0 ! a) (heap s ! t)) \<and>
      (\<forall>a a' t. (a, t) \<in> R \<longrightarrow> (a', t) \<in> R \<longrightarrow> a = a') \<and>
      (\<forall>a \<in> P. memo s a \<noteq> None))"

text \<open>A copier is \<open>good\<close> when a call that returns keeps the invariant, with a larger
  relation that relates the source of the call to its result and whose new clones are new
  objects.\<close>

definition good :: "heap \<Rightarrow> copier \<Rightarrow> bool" where
  "good h0 rec =
     (\<forall>v s r s' R P. rec v s = Inr (r, s') \<longrightarrow> copy_inv h0 R P s \<longrightarrow> val_ok (length h0) v \<longrightarrow>
        (\<exists>R'. R \<subseteq> R' \<and> copy_inv h0 R' P s' \<and> val_rel R' v (data r) \<and>
              (\<forall>a t. (a, t) \<in> R' \<longrightarrow> (a, t) \<in> R \<or> length (heap s) \<le> t)))"

text \<open>The properties \<open>tps\<close> of a container under construction, after the keys \<open>D\<close> of the
  source properties \<open>ps\<close>.\<close>

definition target_inv :: "bool \<Rightarrow> props \<Rightarrow> pkey set \<Rightarrow> props \<Rightarrow> (nat \<times> nat) set \<Rightarrow> bool" where
  "target_inv b ps D tps R =
     (fst ` set tps = D \<union> (if b then {KStr ''length''} else {}) \<and>
      (\<forall>k \<in> D. val_rel R (prop_val ps k) (prop_val tps k)))"


text \<open>An entry of the \<open>WeakMap\<close> for an array or object stays as it is.\<close>

definition memo_kept :: "copier \<Rightarrow> bool" where
  "memo_kept rec =
     (\<forall>v s r s' x c. rec v s = Inr (r, s') \<longrightarrow> generic (heap s) x \<longrightarrow> memo s x = Some c \<longrightarrow>
        memo s' x = Some c)"

subsection \<open>Heaps on which every call returns\<close>

text \<open>
  \<open>ranked h rk K\<close>: the function \<open>rk\<close> ranks the \<open>Set\<close> and \<open>Map\<close> objects of \<open>h\<close>, with
  ranks up to \<open>K\<close>, so that a \<open>Set\<close> or \<open>Map\<close> holds, as element, key or value, only
  \<open>Set\<close> and \<open>Map\<close> objects of a lower rank. Such a ranking exists exactly when no \<open>Set\<close>
  or \<open>Map\<close> is reached from itself on a path through \<open>Set\<close> and \<open>Map\<close> objects only; a
  cycle may pass through an array or a plain object.

  The stack that the call on \<open>v\<close> needs in the state \<open>s\<close> of a traversal from the heap
  \<open>h0\<close>: \<open>K + 2\<close> frames for every array and object of \<open>h0\<close> that is not yet in the
  \<open>WeakMap\<close>, and the rank of \<open>v\<close> when it is a \<open>Set\<close> or \<open>Map\<close>.
\<close>

definition is_set_or_map :: "heap \<Rightarrow> nat \<Rightarrow> bool" where
  "is_set_or_map h a = (case deref h a of Some (OSet xs) \<Rightarrow> True | Some (OMap kvs) \<Rightarrow> True | _ \<Rightarrow> False)"

definition rank_ok :: "heap \<Rightarrow> (nat \<Rightarrow> nat) \<Rightarrow> nat \<Rightarrow> val \<Rightarrow> bool" where
  "rank_ok h rk a x = (case x of Prim p \<Rightarrow> True | Ref b \<Rightarrow> \<not> is_set_or_map h b \<or> rk b < rk a)"

fun ranked_obj :: "heap \<Rightarrow> (nat \<Rightarrow> nat) \<Rightarrow> nat \<Rightarrow> obj \<Rightarrow> bool" where
  "ranked_obj h rk a (OSet xs) = list_all (rank_ok h rk a) xs"
| "ranked_obj h rk a (OMap kvs) =
     (list_all (rank_ok h rk a) (map fst kvs) \<and> list_all (rank_ok h rk a) (map snd kvs))"
| "ranked_obj h rk a ob = True"

definition ranked :: "heap \<Rightarrow> (nat \<Rightarrow> nat) \<Rightarrow> nat \<Rightarrow> bool" where
  "ranked h rk K = list_all (\<lambda>a. ranked_obj h rk a (h ! a) \<and> rk a \<le> K) [0..<length h]"

definition uncopied :: "heap \<Rightarrow> state \<Rightarrow> nat set" where
  "uncopied h0 s = {a. a < length h0 \<and> generic h0 a \<and> memo s a = None}"

definition depth_of :: "heap \<Rightarrow> (nat \<Rightarrow> nat) \<Rightarrow> val \<Rightarrow> nat" where
  "depth_of h rk v = (case v of Prim p \<Rightarrow> 0 | Ref a \<Rightarrow> if is_set_or_map h a then rk a + 1 else 0)"

definition need :: "heap \<Rightarrow> (nat \<Rightarrow> nat) \<Rightarrow> nat \<Rightarrow> state \<Rightarrow> val \<Rightarrow> nat" where
  "need h0 rk K s v = card (uncopied h0 s) * (K + 2) + depth_of h0 rk v + 1"

definition memo_grows :: "copier \<Rightarrow> bool" where
  "memo_grows rec = (\<forall>v s r s' a. rec v s = Inr (r, s') \<longrightarrow> memo s a \<noteq> None \<longrightarrow> memo s' a \<noteq> None)"

definition prim_id :: "copier \<Rightarrow> bool" where
  "prim_id rec = (\<forall>p s r s'. rec (Prim p) s = Inr (r, s') \<longrightarrow> data r = Prim p)"

definition returns_on :: "heap \<Rightarrow> (nat \<Rightarrow> nat) \<Rightarrow> nat \<Rightarrow> nat \<Rightarrow> copier \<Rightarrow> bool" where
  "returns_on h0 rk K n rec =
     (\<forall>v s. keeps (length h0) h0 (heap s) \<longrightarrow> val_ok (length h0) v \<longrightarrow> need h0 rk K s v \<le> n \<longrightarrow>
        (\<exists>r s'. rec v s = Inr (r, s')))"

section \<open>Basic facts on the heap\<close>

lemma deref_append: "deref h a = Some ob \<Longrightarrow> deref (h @ xs) a = Some ob"
  by (auto simp: deref_def nth_append split: if_splits)

lemma deref_upd_obj_other: "a \<noteq> t \<Longrightarrow> deref (upd_obj t f h) a = deref h a"
  by (simp add: deref_def upd_obj_def)

lemma deref_length_append: "deref (h @ [ob]) (length h) = Some ob"
  by (simp add: deref_def)

lemma deref_lt: "deref h a = Some ob \<Longrightarrow> a < length h"
  by (auto simp: deref_def split: if_splits)

section \<open>A call that returns changes no object that existed before\<close>

lemma keeps_refl: "keeps L h h"
  by (simp add: keeps_def)

lemma keeps_trans: "keeps L h h1 \<Longrightarrow> keeps L h1 h2 \<Longrightarrow> keeps L h h2"
  by (simp add: keeps_def)

lemma keeps_le: "keeps M h h' \<Longrightarrow> L \<le> M \<Longrightarrow> keeps L h h'"
proof -
  assume a: "keeps M h h'" and b: "L \<le> M"
  have "take L (take M h') = take L (take M h)" using a by (simp add: keeps_def)
  then show ?thesis using a b by (simp add: keeps_def min_def)
qed

lemma keeps_nth: "keeps L h h' \<Longrightarrow> a < L \<Longrightarrow> a < length h \<Longrightarrow> h' ! a = h ! a"
  by (metis keeps_def nth_take)

lemma keeps_deref: "keeps L h h' \<Longrightarrow> a < L \<Longrightarrow> deref h a = Some ob \<Longrightarrow> deref h' a = Some ob"
  by (auto simp: deref_def keeps_nth keeps_def split: if_splits)

lemma keeps_upd_obj: "L \<le> t \<Longrightarrow> keeps L h (upd_obj t f h)"
  by (simp add: keeps_def upd_obj_def)

lemma keeps_append: "L \<le> length h \<Longrightarrow> keeps L h (h @ xs)"
  by (simp add: keeps_def)

lemma keeps_assign: "assign t k v h = Inr h' \<Longrightarrow> L \<le> t \<Longrightarrow> keeps L h h'"
  by (auto simp: assign_def keeps_def split: option.splits obj.splits sum.splits)

lemma forEach_set_keeps:
  assumes "framed rec" "L \<le> t"
  shows "forEach_set rec t xs s = Inr s' \<Longrightarrow> L \<le> length (heap s) \<Longrightarrow> keeps L (heap s) (heap s')"
proof (induction xs arbitrary: s)
  case Nil
  then show ?case by (simp add: keeps_refl)
next
  case (Cons x xs)
  from Cons.prems(1) obtain r s1 where r: "rec x s = Inr (r, s1)"
    and rest: "forEach_set rec t xs (s1\<lparr>heap := upd_obj t (set_add (data r)) (heap s1)\<rparr>) = Inr s'"
    by (auto split: sum.splits)
  from r assms(1) have k1: "keeps (length (heap s)) (heap s) (heap s1)" by (auto simp: framed_def)
  then have k1': "keeps L (heap s) (heap s1)" using Cons.prems(2) by (rule keeps_le)
  have k2: "keeps L (heap s1) (upd_obj t (set_add (data r)) (heap s1))"
    using assms(2) by (rule keeps_upd_obj)
  have len: "L \<le> length (upd_obj t (set_add (data r)) (heap s1))"
    using k1 Cons.prems(2) by (simp add: keeps_def upd_obj_def)
  from Cons.IH[OF rest] len have "keeps L (upd_obj t (set_add (data r)) (heap s1)) (heap s')" by simp
  with k1' k2 show ?case by (blast intro: keeps_trans)
qed

lemma forEach_map_keeps:
  assumes "framed rec" "L \<le> t"
  shows "forEach_map rec t kvs s = Inr s' \<Longrightarrow> L \<le> length (heap s) \<Longrightarrow> keeps L (heap s) (heap s')"
proof (induction kvs arbitrary: s)
  case Nil
  then show ?case by (simp add: keeps_refl)
next
  case (Cons kv kvs)
  obtain k v where kv: "kv = (k, v)" by (cases kv)
  from Cons.prems(1) kv obtain kr s1 vr s2 where r1: "rec k s = Inr (kr, s1)"
    and r2: "rec v s1 = Inr (vr, s2)"
    and rest: "forEach_map rec t kvs (s2\<lparr>heap := upd_obj t (map_set (data kr) (data vr)) (heap s2)\<rparr>) = Inr s'"
    by (auto split: sum.splits)
  from r1 assms(1) have k1: "keeps (length (heap s)) (heap s) (heap s1)" by (auto simp: framed_def)
  from r2 assms(1) have k2: "keeps (length (heap s1)) (heap s1) (heap s2)" by (auto simp: framed_def)
  have l1: "L \<le> length (heap s1)" using k1 Cons.prems(2) by (simp add: keeps_def)
  have l2: "L \<le> length (heap s2)" using k2 l1 by (simp add: keeps_def)
  have k12: "keeps L (heap s) (heap s2)"
    using keeps_le[OF k1 Cons.prems(2)] keeps_le[OF k2 l1] by (rule keeps_trans)
  have k3: "keeps L (heap s2) (upd_obj t (map_set (data kr) (data vr)) (heap s2))"
    using assms(2) by (rule keeps_upd_obj)
  have len: "L \<le> length (upd_obj t (map_set (data kr) (data vr)) (heap s2))"
    using l2 by (simp add: upd_obj_def)
  from Cons.IH[OF rest] len
  have "keeps L (upd_obj t (map_set (data kr) (data vr)) (heap s2)) (heap s')" by simp
  with k12 k3 show ?case by (blast intro: keeps_trans)
qed

lemma forEach_keys_keeps:
  assumes "framed rec" "L \<le> t"
  shows "forEach_keys rec a t ks s = Inr s' \<Longrightarrow> L \<le> length (heap s) \<Longrightarrow> keeps L (heap s) (heap s')"
proof (induction ks arbitrary: s)
  case Nil
  then show ?case by (simp add: keeps_refl)
next
  case (Cons k ks)
  from Cons.prems(1) obtain r s1 h2 where r: "rec (get_prop (heap s) a k) s = Inr (r, s1)"
    and asg: "assign t k (data r) (heap s1) = Inr h2"
    and rest: "forEach_keys rec a t ks (s1\<lparr>heap := h2\<rparr>) = Inr s'"
    by (auto split: sum.splits)
  from r assms(1) have k1: "keeps (length (heap s)) (heap s) (heap s1)" by (auto simp: framed_def)
  then have k1': "keeps L (heap s) (heap s1)" using Cons.prems(2) by (rule keeps_le)
  have k2: "keeps L (heap s1) h2" using asg assms(2) by (rule keeps_assign)
  have len: "L \<le> length h2" using k1 k2 Cons.prems(2) by (simp add: keeps_def)
  from Cons.IH[OF rest] len have "keeps L h2 (heap s')" by simp
  with k1' k2 show ?case by (blast intro: keeps_trans)
qed

lemma deepCopy_obj_framed:
  assumes "framed rec" "deepCopy_obj rec a ob s = Inr (r, s')"
  shows "keeps (length (heap s)) (heap s) (heap s')"
proof (cases ob)
  case (ODate tv)
  with assms(2) show ?thesis by (auto simp: deepCopy_obj_def alloc_def keeps_def)
next
  case (ORegExp p f li)
  with assms(2) show ?thesis by (auto simp: deepCopy_obj_def alloc_def keeps_def upd_obj_def)
next
  case (OSet xs)
  with assms(2) obtain s3 where
    "forEach_set rec (length (heap s)) xs (memo_set a (Ref (length (heap s))) (s\<lparr>heap := heap s @ [OSet []]\<rparr>)) = Inr s3"
    and s': "s' = s3"
    by (auto simp: deepCopy_obj_def alloc_def split: sum.splits)
  from forEach_set_keeps[OF assms(1) le_refl this(1)]
  have "keeps (length (heap s)) (heap s @ [OSet []]) (heap s3)" by (simp add: memo_set_def)
  with s' show ?thesis using keeps_append[of "length (heap s)" "heap s" "[OSet []]"]
    by (blast intro: keeps_trans)
next
  case (OMap kvs)
  with assms(2) obtain s3 where
    "forEach_map rec (length (heap s)) kvs (memo_set a (Ref (length (heap s))) (s\<lparr>heap := heap s @ [OMap []]\<rparr>)) = Inr s3"
    and s': "s' = s3"
    by (auto simp: deepCopy_obj_def alloc_def split: sum.splits)
  from forEach_map_keeps[OF assms(1) le_refl this(1)]
  have "keeps (length (heap s)) (heap s @ [OMap []]) (heap s3)" by (simp add: memo_set_def)
  with s' show ?thesis using keeps_append[of "length (heap s)" "heap s" "[OMap []]"]
    by (blast intro: keeps_trans)
next
  case (OObj b ps)
  show ?thesis
  proof (cases "memo s a")
    case (Some c)
    with OObj assms(2) show ?thesis by (auto simp: deepCopy_obj_def keeps_refl)
  next
    case None
    with OObj assms(2) obtain s3 where
      "forEach_keys rec a (length (heap s)) (map fst ps) (memo_set a (Ref (length (heap s))) (s\<lparr>heap := heap s @ [new_container b]\<rparr>)) = Inr s3"
      and s': "s' = s3"
      by (auto simp: deepCopy_obj_def alloc_def split: sum.splits)
    from forEach_keys_keeps[OF assms(1) le_refl this(1)]
    have "keeps (length (heap s)) (heap s @ [new_container b]) (heap s3)" by (simp add: memo_set_def)
    with s' show ?thesis using keeps_append[of "length (heap s)" "heap s" "[new_container b]"]
      by (blast intro: keeps_trans)
  qed
qed

lemma deepCopy_framed: "framed (deepCopy n)"
proof (induction n)
  case 0
  show ?case by (simp add: framed_def)
next
  case (Suc n)
  show ?case unfolding framed_def
  proof (intro allI impI)
    fix v s r s'
    assume h: "deepCopy (Suc n) v s = Inr (r, s')"
    show "keeps (length (heap s)) (heap s) (heap s')"
    proof (cases v)
      case (Prim p)
      with h show ?thesis by (auto simp: keeps_refl)
    next
      case (Ref a)
      with h obtain ob where "deepCopy_obj (deepCopy n) a ob s = Inr (r, s')"
        by (auto split: option.splits)
      with Suc show ?thesis by (rule deepCopy_obj_framed)
    qed
  qed
qed

lemma deepCopy_status: "deepCopy n v s = Inr (r, s') \<Longrightarrow> status r"
  by (cases n; cases v)
     (auto simp: deepCopy_obj_def alloc_def Let_def split: option.splits obj.splits sum.splits prod.splits)

lemma shallowCopy_status: "shallowCopy v h = Inr (r, h') \<Longrightarrow> status r = (\<exists>a. v = Ref a)"
  by (cases v) (auto simp: shallowCopy_def Let_def split: option.splits sum.splits)

lemma deepClone_Inr:
  assumes "deepClone n v h = Inr (r, h')"
  shows "\<exists>s'. deepCopy n v \<lparr>heap = h, memo = Map.empty\<rparr> = Inr (r, s') \<and> h' = heap s'"
proof (cases "deepCopy n v \<lparr>heap = h, memo = Map.empty\<rparr>")
  case (Inl e)
  with assms show ?thesis by (simp add: deepClone_def)
next
  case (Inr p)
  obtain r0 s0 where "p = (r0, s0)" by (cases p)
  with Inr assms show ?thesis by (simp add: deepClone_def)
qed

section \<open>Cycles through Set and Map objects\<close>

text \<open>
  The \<open>Set\<close> and \<open>Map\<close> branches of \<open>deepCopy\<close> store the new container in the \<open>WeakMap\<close>
  but come before the look-up, so a \<open>Set\<close> or \<open>Map\<close> that is reached again from itself
  is copied again, without end.
\<close>

lemma forEach_set_prims:
  assumes "\<And>p s. rec (Prim p) s = Inl e \<or> rec (Prim p) s = Inr (\<lparr>status = True, msg = MsgPrimitive, data = Prim p\<rparr>, s)"
    and "\<And>s. deref (heap s) a = Some ob \<Longrightarrow> rec (Ref a) s = Inl e"
    and "a \<noteq> t"
  shows "deref (heap s) a = Some ob \<Longrightarrow> forEach_set rec t (map Prim ps @ Ref a # xs) s = Inl e"
proof (induction ps arbitrary: s)
  case Nil
  then show ?case using assms(2) by simp
next
  case (Cons p ps)
  then show ?case using assms(1)[of p s] assms(3) by (auto simp: deref_upd_obj_other)
qed

lemma set_cycle_overflow:
  "deref (heap s) a = Some (OSet (map Prim ps @ Ref a # xs)) \<Longrightarrow> deepCopy n (Ref a) s = Inl StackOverflow"
proof (induction n arbitrary: s)
  case 0
  show ?case by simp
next
  case (Suc n)
  let ?t = "length (heap s)"
  let ?s2 = "memo_set a (Ref ?t) (s\<lparr>heap := heap s @ [OSet []]\<rparr>)"
  have lt: "a < ?t" using Suc.prems by (auto simp: deref_def split: if_splits)
  have d: "deref (heap ?s2) a = Some (OSet (map Prim ps @ Ref a # xs))"
    using Suc.prems by (simp add: memo_set_def deref_append)
  have "forEach_set (deepCopy n) ?t (map Prim ps @ Ref a # xs) ?s2 = Inl StackOverflow"
  proof (rule forEach_set_prims[OF _ _ _ d])
    fix p and s :: state show "deepCopy n (Prim p) s = Inl StackOverflow \<or> deepCopy n (Prim p) s = Inr (\<lparr>status = True, msg = MsgPrimitive, data = Prim p\<rparr>, s)"
      by (cases n) simp_all
  next
    fix s :: state assume "deref (heap s) a = Some (OSet (map Prim ps @ Ref a # xs))"
    then show "deepCopy n (Ref a) s = Inl StackOverflow" by (rule Suc.IH)
  next
    show "a \<noteq> ?t" using lt by simp
  qed
  then show ?case using Suc.prems by (simp add: deepCopy_obj_def alloc_def)
qed

lemma map_val_overflow:
  "deref (heap s) a = Some (OMap ((Prim p, Ref a) # kvs)) \<Longrightarrow> deepCopy n (Ref a) s = Inl StackOverflow"
proof (induction n arbitrary: s)
  case 0
  show ?case by simp
next
  case (Suc n)
  let ?s2 = "memo_set a (Ref (length (heap s))) (s\<lparr>heap := heap s @ [OMap []]\<rparr>)"
  have d: "deref (heap ?s2) a = Some (OMap ((Prim p, Ref a) # kvs))"
    using Suc.prems by (simp add: memo_set_def deref_append)
  have "deepCopy n (Ref a) ?s2 = Inl StackOverflow" using d by (rule Suc.IH)
  moreover have "deepCopy n (Prim p) ?s2 = Inl StackOverflow \<or>
      deepCopy n (Prim p) ?s2 = Inr (\<lparr>status = True, msg = MsgPrimitive, data = Prim p\<rparr>, ?s2)"
    by (cases n) simp_all
  ultimately have "forEach_map (deepCopy n) (length (heap s)) ((Prim p, Ref a) # kvs) ?s2 = Inl StackOverflow"
    by auto
  then show ?case using Suc.prems by (simp add: deepCopy_obj_def alloc_def)
qed

lemma map_key_overflow:
  "deref (heap s) a = Some (OMap ((Ref a, v) # kvs)) \<Longrightarrow> deepCopy n (Ref a) s = Inl StackOverflow"
proof (induction n arbitrary: s)
  case 0
  show ?case by simp
next
  case (Suc n)
  let ?s2 = "memo_set a (Ref (length (heap s))) (s\<lparr>heap := heap s @ [OMap []]\<rparr>)"
  have d: "deref (heap ?s2) a = Some (OMap ((Ref a, v) # kvs))"
    using Suc.prems by (simp add: memo_set_def deref_append)
  have "deepCopy n (Ref a) ?s2 = Inl StackOverflow" using d by (rule Suc.IH)
  then have "forEach_map (deepCopy n) (length (heap s)) ((Ref a, v) # kvs) ?s2 = Inl StackOverflow"
    by simp
  then show ?case using Suc.prems by (simp add: deepCopy_obj_def alloc_def)
qed

section \<open>Facts on property lists\<close>

lemma map_fst_upd_prop: "map fst (upd_prop k v ps) = map fst ps"
  by (induction ps) auto

lemma keys_upd_prop: "fst ` set (upd_prop k v ps) = fst ` set ps"
proof -
  have "set (map fst (upd_prop k v ps)) = set (map fst ps)" by (simp only: map_fst_upd_prop)
  then show ?thesis by (simp only: set_map)
qed

lemma mem_keys_ins_prop: "k' \<in> fst ` set (ins_prop k v ps) \<longleftrightarrow> k' = k \<or> k' \<in> fst ` set ps"
proof (induction ps)
  case Nil
  show ?case by simp
next
  case (Cons p ps)
  obtain k0 v0 e0 where p: "p = (k0, v0, e0)" by (cases p)
  show ?case
  proof (cases "key_before k k0")
    case True
    then show ?thesis unfolding p by simp
  next
    case False
    then show ?thesis unfolding p using Cons.IH by simp blast
  qed
qed

lemma keys_ins_prop: "fst ` set (ins_prop k v ps) = insert k (fst ` set ps)"
  using mem_keys_ins_prop[of _ k v ps] by blast

lemma keys_put_prop: "fst ` set (put_prop k v ps) = insert k (fst ` set ps)"
proof (cases "has_key k ps")
  case True
  then show ?thesis by (simp add: put_prop_def keys_upd_prop has_key_def insert_absorb)
next
  case False
  then show ?thesis by (simp add: put_prop_def keys_ins_prop)
qed

lemma map_of_upd_prop_other: "k' \<noteq> k \<Longrightarrow> map_of (upd_prop k v ps) k' = map_of ps k'"
  by (induction ps) auto

lemma map_of_upd_prop_same:
  "map_of (upd_prop k v ps) k = map_option (\<lambda>(v', e). (v, e)) (map_of ps k)"
  by (induction ps) auto

lemma map_of_ins_prop_other: "k' \<noteq> k \<Longrightarrow> map_of (ins_prop k v ps) k' = map_of ps k'"
  by (induction ps) auto

lemma map_of_ins_prop_same: "k \<notin> fst ` set ps \<Longrightarrow> map_of (ins_prop k v ps) k = Some (v, True)"
  by (induction ps) auto

lemma prop_val_upd_other: "k' \<noteq> k \<Longrightarrow> prop_val (upd_prop k v ps) k' = prop_val ps k'"
  by (simp add: prop_val_def map_of_upd_prop_other)

lemma prop_val_upd_same: "k \<in> fst ` set ps \<Longrightarrow> prop_val (upd_prop k v ps) k = v"
proof -
  assume "k \<in> fst ` set ps"
  then obtain p where "map_of ps k = Some p"
    by (metis domIff dom_map_of_conv_image_fst not_None_eq)
  then show ?thesis by (cases p) (simp add: prop_val_def map_of_upd_prop_same)
qed

lemma prop_val_put_other: "k' \<noteq> k \<Longrightarrow> prop_val (put_prop k v ps) k' = prop_val ps k'"
  by (simp add: put_prop_def prop_val_def map_of_upd_prop_other map_of_ins_prop_other)

lemma prop_val_put_same: "prop_val (put_prop k v ps) k = v"
  by (simp add: put_prop_def has_key_def prop_val_upd_same)
     (simp add: prop_val_def map_of_ins_prop_same)

lemma filter_below_len_id:
  "\<forall>k \<in> fst ` set ps. index_ok n k \<Longrightarrow> filter (below_len n) ps = ps"
proof (induction ps)
  case Nil
  show ?case by simp
next
  case (Cons p ps)
  obtain k v e where p: "p = (k, v, e)" by (cases p)
  from Cons.prems p have "below_len n p" by (cases k) auto
  with Cons show ?case by simp
qed

lemma val_rel_mono: "val_rel R v w \<Longrightarrow> R \<subseteq> R' \<Longrightarrow> val_rel R' v w"
  by (auto simp: val_rel_def split: val.splits)

lemma val_rel_inj:
  assumes "\<forall>a a' t. (a, t) \<in> R \<longrightarrow> (a', t) \<in> R \<longrightarrow> a = a'"
  shows "val_rel R x y \<Longrightarrow> val_rel R x' y \<Longrightarrow> x = x'"
  using assms by (auto simp: val_rel_def split: val.splits)

lemma val_rel_Prim: "val_rel R (Prim p) w = (w = Prim p)"
  by (simp add: val_rel_def)

lemma array_len_rel:
  "val_rel R (prop_val ps (KStr ''length'')) (prop_val qs (KStr ''length'')) \<Longrightarrow>
   array_len ps \<noteq> 0 \<Longrightarrow> array_len qs = array_len ps"
  by (auto simp: array_len_def val_rel_def split: val.splits prim.splits)

lemma target_inv_step:
  assumes keys: "fst ` set tps2 = insert k (fst ` set tps)"
    and same: "prop_val tps2 k = w"
    and other: "\<And>k'. k' \<noteq> k \<Longrightarrow> k' \<in> D \<Longrightarrow> prop_val tps2 k' = prop_val tps k'"
    and ti: "target_inv b ps D tps R"
    and rel: "val_rel R (prop_val ps k) w"
  shows "target_inv b ps (insert k D) tps2 R"
proof -
  have "\<forall>k' \<in> insert k D. val_rel R (prop_val ps k') (prop_val tps2 k')"
  proof
    fix k' assume k': "k' \<in> insert k D"
    show "val_rel R (prop_val ps k') (prop_val tps2 k')"
    proof (cases "k' = k")
      case True
      with same rel show ?thesis by simp
    next
      case False
      with k' have "k' \<in> D" by simp
      with other[OF False] ti show ?thesis by (simp add: target_inv_def)
    qed
  qed
  moreover have "fst ` set tps2 = insert k D \<union> (if b then {KStr ''length''} else {})"
    using keys ti by (simp add: target_inv_def)
  ultimately show ?thesis by (simp add: target_inv_def)
qed

lemma assign_props_own:
  "k \<noteq> KStr ''__proto__'' \<Longrightarrow> \<not> (b \<and> k = KSym Unscopables) \<Longrightarrow>
   assign_props b k v ps =
     (if \<not> b then Inr (put_prop k v ps)
      else (case k of
          KIdx i \<Rightarrow>
            Inr (if array_len ps \<le> int i
                 then upd_prop (KStr ''length'') (Prim (Num (int i + 1))) (put_prop k v ps)
                 else put_prop k v ps)
        | KStr s \<Rightarrow>
            if s = ''length'' then
              (case v of
                 Prim (Num n) \<Rightarrow>
                   if 0 \<le> n \<and> n < 2 ^ 32
                   then Inr (upd_prop k v (filter (below_len n) ps))
                   else Inl RangeError
               | _ \<Rightarrow> Inl RangeError)
            else Inr (put_prop k v ps)
        | KSym y \<Rightarrow> Inr (put_prop k v ps)))"
  by (cases k) (auto simp: assign_props_def)

text \<open>
  One assignment \<open>target[key] = value\<close> for a key of the source: the container has the
  key, with the value, and the values under the keys written before are as they were.
\<close>

lemma assign_props_step:
  assumes asg: "assign_props b k w tps = Inr tps2"
    and np: "k \<noteq> KStr ''__proto__''" "\<not> (b \<and> k = KSym Unscopables)"
    and ti: "target_inv b ps D tps R"
    and rel: "val_rel R (prop_val ps k) w"
    and k: "k \<in> fst ` set ps"
    and D: "D \<subseteq> fst ` set ps"
    and idx: "b \<Longrightarrow> \<forall>k \<in> fst ` set ps. index_ok (array_len ps) k"
  shows "fst ` set tps2 = insert k (fst ` set tps) \<and> prop_val tps2 k = w \<and>
     (\<forall>k'. k' \<noteq> k \<longrightarrow> k' \<in> D \<longrightarrow> prop_val tps2 k' = prop_val tps k')"
proof -
  let ?len = "KStr ''length''"
  have put: "fst ` set (put_prop k w tps) = insert k (fst ` set tps) \<and>
     prop_val (put_prop k w tps) k = w \<and>
     (\<forall>k'. k' \<noteq> k \<longrightarrow> k' \<in> D \<longrightarrow> prop_val (put_prop k w tps) k' = prop_val tps k')"
    by (simp add: keys_put_prop prop_val_put_same prop_val_put_other)
  show ?thesis
  proof (cases b)
    case False
    with asg have "tps2 = put_prop k w tps" using np by (simp add: assign_props_own)
    with put show ?thesis by simp
  next
    case True
    note b = True
    have keys: "fst ` set tps = insert ?len D" using ti b by (simp add: target_inv_def)
    have vals: "\<forall>k' \<in> D. val_rel R (prop_val ps k') (prop_val tps k')"
      using ti by (simp add: target_inv_def)
    show ?thesis
    proof (cases k)
      case (KSym x)
      with asg b have "tps2 = put_prop k w tps" using np by (simp add: assign_props_own)
      with put show ?thesis by simp
    next
      case (KStr x)
      show ?thesis
      proof (cases "x = ''length''")
        case False
        with asg b KStr have "tps2 = put_prop k w tps" using np by (simp add: assign_props_own)
        with put show ?thesis by simp
      next
        case True
        with KStr have kl: "k = ?len" by simp
        from asg b kl obtain n where w: "w = Prim (Num n)"
          and t2: "tps2 = upd_prop ?len w (filter (below_len n) tps)"
          using np by (auto simp: assign_props_own split: val.splits prim.splits if_splits)
        from rel kl w have pl: "prop_val ps ?len = Prim (Num n)"
          by (auto simp: val_rel_def split: val.splits)
        then have al: "array_len ps = n" by (simp add: array_len_def)
        have "\<forall>k' \<in> fst ` set tps. index_ok n k'"
        proof
          fix k' assume "k' \<in> fst ` set tps"
          with keys have "k' = ?len \<or> k' \<in> D" by simp
          then show "index_ok n k'"
          proof
            assume "k' = ?len" then show ?thesis by simp
          next
            assume "k' \<in> D"
            then have "k' \<in> fst ` set ps" using D by blast
            with idx[OF b] al show ?thesis by blast
          qed
        qed
        then have "filter (below_len n) tps = tps" by (rule filter_below_len_id)
        with t2 have t2': "tps2 = upd_prop k w tps" using kl by simp
        have lk: "k \<in> fst ` set tps" using keys kl by simp
        have "fst ` set tps2 = insert k (fst ` set tps)"
          unfolding t2' using lk by (simp add: keys_upd_prop insert_absorb)
        moreover have "prop_val tps2 k = w" unfolding t2' using lk by (rule prop_val_upd_same)
        moreover have "\<forall>k'. k' \<noteq> k \<longrightarrow> k' \<in> D \<longrightarrow> prop_val tps2 k' = prop_val tps k'"
          unfolding t2' by (simp add: prop_val_upd_other)
        ultimately show ?thesis by simp
      qed
    next
      case (KIdx i)
      have nl: "k \<noteq> ?len" using KIdx by simp
      from KIdx asg b have t2: "tps2 = (if array_len tps \<le> int i
          then upd_prop ?len (Prim (Num (int i + 1))) (put_prop k w tps) else put_prop k w tps)"
        using np by (auto simp: assign_props_own)
      have "index_ok (array_len ps) k" using idx[OF b] k by blast
      then have i_lt: "int i < array_len ps" using KIdx by simp
      have nobump: "\<not> array_len tps \<le> int i" if "?len \<in> D"
      proof -
        from vals that have "val_rel R (prop_val ps ?len) (prop_val tps ?len)" by blast
        moreover have "array_len ps \<noteq> 0" using i_lt by auto
        ultimately have "array_len tps = array_len ps" by (rule array_len_rel)
        with i_lt show ?thesis by simp
      qed
      have "fst ` set tps2 = insert k (fst ` set tps)"
        unfolding t2 by (simp add: keys_upd_prop keys_put_prop)
      moreover have "prop_val tps2 k = w"
        unfolding t2 using nl by (simp add: prop_val_upd_other prop_val_put_same)
      moreover have "prop_val tps2 k' = prop_val tps k'" if "k' \<noteq> k" "k' \<in> D" for k'
      proof (cases "k' = ?len")
        case True
        with that nobump have "\<not> array_len tps \<le> int i" by simp
        then show ?thesis unfolding t2 using that by (simp add: prop_val_put_other)
      next
        case False
        then show ?thesis unfolding t2 using that
          by (simp add: prop_val_upd_other prop_val_put_other)
      qed
      ultimately show ?thesis by simp
    qed
  qed
qed

lemma assign_target_inv:
  assumes asg: "assign_props b k w tps = Inr tps2"
    and np: "k \<noteq> KStr ''__proto__''" "\<not> (b \<and> k = KSym Unscopables)"
    and ti: "target_inv b ps D tps R"
    and rel: "val_rel R (prop_val ps k) w"
    and k: "k \<in> fst ` set ps"
    and D: "D \<subseteq> fst ` set ps"
    and idx: "b \<Longrightarrow> \<forall>k \<in> fst ` set ps. index_ok (array_len ps) k"
  shows "target_inv b ps (insert k D) tps2 R"
proof -
  note step = assign_props_step[OF asg np ti rel k D idx]
  show ?thesis using _ _ _ ti rel
  proof (rule target_inv_step)
    show "fst ` set tps2 = insert k (fst ` set tps)" using step by simp
    show "prop_val tps2 k = w" using step by simp
    show "\<And>k'. k' \<noteq> k \<Longrightarrow> k' \<in> D \<Longrightarrow> prop_val tps2 k' = prop_val tps k'" using step by simp
  qed
qed

section \<open>The invariant of a traversal\<close>

lemma keepsI:
  assumes "length h \<le> length h'" "L \<le> length h"
    and "\<And>a. a < L \<Longrightarrow> h' ! a = h ! a"
  shows "keeps L h h'"
proof -
  have "take L h' = take L h"
  proof (rule nth_equalityI)
    show "length (take L h') = length (take L h)" using assms(1,2) by simp
  next
    fix i assume "i < length (take L h')"
    then show "take L h' ! i = take L h ! i" using assms by simp
  qed
  with assms(1) show ?thesis by (simp add: keeps_def)
qed

lemma keeps_length: "keeps L h h' \<Longrightarrow> length h \<le> length h'"
  by (simp add: keeps_def)

lemma invD_keeps: "copy_inv h0 R P s \<Longrightarrow> keeps (length h0) h0 (heap s)"
  by (simp add: copy_inv_def)

lemma invD_range:
  "copy_inv h0 R P s \<Longrightarrow> (a, t) \<in> R \<Longrightarrow> a < length h0 \<and> length h0 \<le> t \<and> t < length (heap s)"
  by (simp add: copy_inv_def)

lemma invD_memo:
  "copy_inv h0 R P s \<Longrightarrow> generic h0 a \<Longrightarrow> (memo s a = Some v) = (\<exists>t. v = Ref t \<and> (a, t) \<in> R)"
  by (simp add: copy_inv_def)

lemma invD_match:
  "copy_inv h0 R P s \<Longrightarrow> (a, t) \<in> R \<Longrightarrow> a \<notin> P \<Longrightarrow> obj_equal False (val_rel R) (h0 ! a) (heap s ! t)"
  by (simp add: copy_inv_def)

lemma invD_inj: "copy_inv h0 R P s \<Longrightarrow> (a, t) \<in> R \<Longrightarrow> (a', t) \<in> R \<Longrightarrow> a = a'"
  unfolding copy_inv_def by blast

lemma invD_inj_all: "copy_inv h0 R P s \<Longrightarrow> \<forall>a a' t. (a, t) \<in> R \<longrightarrow> (a', t) \<in> R \<longrightarrow> a = a'"
  unfolding copy_inv_def by blast

lemma invD_pending: "copy_inv h0 R P s \<Longrightarrow> a \<in> P \<Longrightarrow> memo s a \<noteq> None"
  unfolding copy_inv_def by blast

lemma invI:
  assumes "keeps (length h0) h0 (heap s)"
    and "\<And>a t. (a, t) \<in> R \<Longrightarrow> a < length h0 \<and> length h0 \<le> t \<and> t < length (heap s)"
    and "\<And>a v. generic h0 a \<Longrightarrow> (memo s a = Some v) = (\<exists>t. v = Ref t \<and> (a, t) \<in> R)"
    and "\<And>a t. (a, t) \<in> R \<Longrightarrow> a \<notin> P \<Longrightarrow> obj_equal False (val_rel R) (h0 ! a) (heap s ! t)"
    and "\<And>a a' t. (a, t) \<in> R \<Longrightarrow> (a', t) \<in> R \<Longrightarrow> a = a'"
    and "\<And>a. a \<in> P \<Longrightarrow> memo s a \<noteq> None"
  shows "copy_inv h0 R P s"
proof -
  have 1: "\<forall>a t. (a, t) \<in> R \<longrightarrow> a < length h0 \<and> length h0 \<le> t \<and> t < length (heap s)"
    using assms(2) by (intro allI impI)
  have 2: "\<forall>a v. generic h0 a \<longrightarrow> (memo s a = Some v) = (\<exists>t. v = Ref t \<and> (a, t) \<in> R)"
    using assms(3) by (intro allI impI)
  have 3: "\<forall>a t. (a, t) \<in> R \<longrightarrow> a \<notin> P \<longrightarrow> obj_equal False (val_rel R) (h0 ! a) (heap s ! t)"
    using assms(4) by (intro allI impI)
  have 4: "\<forall>a a' t. (a, t) \<in> R \<longrightarrow> (a', t) \<in> R \<longrightarrow> a = a'"
    using assms(5) by (intro allI impI)
  have 5: "\<forall>a \<in> P. memo s a \<noteq> None"
    using assms(6) by (intro ballI)
  show ?thesis unfolding copy_inv_def using assms(1) 1 2 3 4 5 by (intro conjI)
qed

lemma obj_equal_mono:
  assumes "\<And>x y. eq x y \<Longrightarrow> eq' x y"
  shows "obj_equal False eq x y \<Longrightarrow> obj_equal False eq' x y"
proof (cases x; cases y)
  fix xs ys assume "x = OSet xs" "y = OSet ys" "obj_equal False eq x y"
  then show ?thesis using assms by (auto elim: list_all2_mono)
next
  fix kvs kws assume xy: "x = OMap kvs" "y = OMap kws" and "obj_equal False eq x y"
  then have "list_all2 (entry_rel eq) kvs kws" by simp
  then have "list_all2 (entry_rel eq') kvs kws"
  proof (rule list_all2_mono)
    fix p q assume "entry_rel eq p q"
    then show "entry_rel eq' p q" using assms by (cases p; cases q) simp
  qed
  with xy show ?thesis by simp
next
  fix b ps b' qs assume xy: "x = OObj b ps" "y = OObj b' qs" and "obj_equal False eq x y"
  then have 1: "b = b'" "set (map fst ps) = set (map fst qs)"
    and 2: "list_all (\<lambda>k. eq (prop_val ps k) (prop_val qs k)) (map fst ps)"
    by simp_all
  have "list_all (\<lambda>k. eq' (prop_val ps k) (prop_val qs k)) (map fst ps)"
    unfolding list_all_iff
  proof
    fix k assume "k \<in> set (map fst ps)"
    with 2 have "eq (prop_val ps k) (prop_val qs k)" unfolding list_all_iff by blast
    then show "eq' (prop_val ps k) (prop_val qs k)" by (rule assms)
  qed
  with 1 xy show ?thesis by simp
qed simp_all

lemma obj_equal_val_rel_mono:
  "obj_equal False (val_rel R) x y \<Longrightarrow> R \<subseteq> R' \<Longrightarrow> obj_equal False (val_rel R') x y"
  by (erule obj_equal_mono[rotated]) (erule val_rel_mono)

text \<open>The heap grows at its end; a Set or Map source enters the WeakMap.\<close>

lemma inv_alloc:
  assumes "copy_inv h0 R P s"
  shows "copy_inv h0 R P (s\<lparr>heap := heap s @ [ob]\<rparr>)"
proof (rule invI)
  have k: "keeps (length h0) h0 (heap s)" using assms by (rule invD_keeps)
  have "keeps (length h0) (heap s) (heap s @ [ob])"
    using keeps_length[OF k] by (rule keeps_append)
  with k show "keeps (length h0) h0 (heap (s\<lparr>heap := heap s @ [ob]\<rparr>))"
    by (auto intro: keeps_trans)
next
  fix a t assume "(a, t) \<in> R"
  from invD_range[OF assms this]
  show "a < length h0 \<and> length h0 \<le> t \<and> t < length (heap (s\<lparr>heap := heap s @ [ob]\<rparr>))" by simp
next
  fix a v assume "generic h0 a"
  from invD_memo[OF assms this]
  show "(memo (s\<lparr>heap := heap s @ [ob]\<rparr>) a = Some v) = (\<exists>t. v = Ref t \<and> (a, t) \<in> R)" by simp
next
  fix a t assume at: "(a, t) \<in> R" and "a \<notin> P"
  from invD_match[OF assms this] invD_range[OF assms at]
  show "obj_equal False (val_rel R) (h0 ! a) (heap (s\<lparr>heap := heap s @ [ob]\<rparr>) ! t)"
    by (simp add: nth_append)
next
  fix a a' t assume "(a, t) \<in> R" "(a', t) \<in> R"
  then show "a = a'" by (rule invD_inj[OF assms])
next
  fix a assume "a \<in> P"
  from invD_pending[OF assms this] show "memo (s\<lparr>heap := heap s @ [ob]\<rparr>) a \<noteq> None" by simp
qed

lemma inv_memo_set:
  assumes "copy_inv h0 R P s" "\<not> generic h0 a"
  shows "copy_inv h0 R P (memo_set a v s)"
proof (rule invI)
  show "keeps (length h0) h0 (heap (memo_set a v s))"
    using invD_keeps[OF assms(1)] by (simp add: memo_set_def)
next
  fix a' t assume "(a', t) \<in> R"
  from invD_range[OF assms(1) this]
  show "a' < length h0 \<and> length h0 \<le> t \<and> t < length (heap (memo_set a v s))"
    by (simp add: memo_set_def)
next
  fix a' v' assume g: "generic h0 a'"
  with assms(2) have "a' \<noteq> a" by auto
  with invD_memo[OF assms(1) g]
  show "(memo (memo_set a v s) a' = Some v') = (\<exists>t. v' = Ref t \<and> (a', t) \<in> R)"
    by (simp add: memo_set_def)
next
  fix a' t assume "(a', t) \<in> R" "a' \<notin> P"
  from invD_match[OF assms(1) this]
  show "obj_equal False (val_rel R) (h0 ! a') (heap (memo_set a v s) ! t)"
    by (simp add: memo_set_def)
next
  fix a1 a2 t assume "(a1, t) \<in> R" "(a2, t) \<in> R"
  then show "a1 = a2" by (rule invD_inj[OF assms(1)])
next
  fix a' assume "a' \<in> P"
  from invD_pending[OF assms(1) this] show "memo (memo_set a v s) a' \<noteq> None"
    by (simp add: memo_set_def)
qed

text \<open>A write to a container that is still under construction.\<close>

lemma inv_heap_write:
  assumes i: "copy_inv h0 R P s"
    and len: "length h2 = length (heap s)"
    and t: "length h0 \<le> t"
    and other: "\<And>x. x \<noteq> t \<Longrightarrow> h2 ! x = heap s ! x"
    and pend: "\<And>a. (a, t) \<in> R \<Longrightarrow> a \<in> P"
  shows "copy_inv h0 R P (s\<lparr>heap := h2\<rparr>)"
proof (rule invI)
  have "keeps (length h0) (heap s) h2"
  proof (rule keepsI)
    show "length (heap s) \<le> length h2" using len by simp
    show "length h0 \<le> length (heap s)" using invD_keeps[OF i] by (rule keeps_length)
    fix a assume "a < length h0"
    with t have "a \<noteq> t" by simp
    then show "h2 ! a = heap s ! a" by (rule other)
  qed
  with invD_keeps[OF i] show "keeps (length h0) h0 (heap (s\<lparr>heap := h2\<rparr>))"
    by (auto intro: keeps_trans)
next
  fix a t' assume "(a, t') \<in> R"
  from invD_range[OF i this] len
  show "a < length h0 \<and> length h0 \<le> t' \<and> t' < length (heap (s\<lparr>heap := h2\<rparr>))" by simp
next
  fix a v assume "generic h0 a"
  from invD_memo[OF i this]
  show "(memo (s\<lparr>heap := h2\<rparr>) a = Some v) = (\<exists>t. v = Ref t \<and> (a, t) \<in> R)" by simp
next
  fix a t' assume at: "(a, t') \<in> R" and np: "a \<notin> P"
  with pend have "t' \<noteq> t" by blast
  with invD_match[OF i at np] other
  show "obj_equal False (val_rel R) (h0 ! a) (heap (s\<lparr>heap := h2\<rparr>) ! t')" by simp
next
  fix a a' t' assume "(a, t') \<in> R" "(a', t') \<in> R"
  then show "a = a'" by (rule invD_inj[OF i])
next
  fix a assume "a \<in> P"
  from invD_pending[OF i this] show "memo (s\<lparr>heap := h2\<rparr>) a \<noteq> None" by simp
qed

text \<open>The finished clone of a Date, RegExp, Set or Map joins the relation.\<close>

lemma inv_add_finished:
  assumes i: "copy_inv h0 R P s"
    and ng: "\<not> generic h0 a"
    and a: "a < length h0"
    and t: "length h0 \<le> t" "t < length (heap s)"
    and fresh: "\<And>a'. (a', t) \<notin> R"
    and m: "obj_equal False (val_rel (insert (a, t) R)) (h0 ! a) (heap s ! t)"
  shows "copy_inv h0 (insert (a, t) R) P s"
proof (rule invI)
  show "keeps (length h0) h0 (heap s)" using i by (rule invD_keeps)
next
  fix a' t' assume "(a', t') \<in> insert (a, t) R"
  then show "a' < length h0 \<and> length h0 \<le> t' \<and> t' < length (heap s)"
    using invD_range[OF i, of a' t'] a t by auto
next
  fix a' v assume g: "generic h0 a'"
  with ng have "a' \<noteq> a" by auto
  with invD_memo[OF i g]
  show "(memo s a' = Some v) = (\<exists>t'. v = Ref t' \<and> (a', t') \<in> insert (a, t) R)" by simp
next
  fix a' t' assume at: "(a', t') \<in> insert (a, t) R" and np: "a' \<notin> P"
  show "obj_equal False (val_rel (insert (a, t) R)) (h0 ! a') (heap s ! t')"
  proof (cases "(a', t') = (a, t)")
    case True
    with m show ?thesis by simp
  next
    case False
    with at have "(a', t') \<in> R" by blast
    from invD_match[OF i this np] show ?thesis
      by (rule obj_equal_val_rel_mono) blast
  qed
next
  fix a1 a2 t' assume "(a1, t') \<in> insert (a, t) R" "(a2, t') \<in> insert (a, t) R"
  then show "a1 = a2" using fresh invD_inj[OF i, of a1 t' a2] by auto
next
  fix a' assume "a' \<in> P"
  then show "memo s a' \<noteq> None" by (rule invD_pending[OF i])
qed

text \<open>The copy of an array or object begins: its container is in the WeakMap before it is filled.\<close>

lemma inv_begin_generic:
  assumes i: "copy_inv h0 R P s"
    and g: "generic h0 a"
    and none: "memo s a = None"
  shows "copy_inv h0 (insert (a, length (heap s)) R) (insert a P)
           (memo_set a (Ref (length (heap s))) (s\<lparr>heap := heap s @ [ob]\<rparr>))"
    (is "copy_inv h0 ?R ?P ?s")
proof (rule invI)
  show "keeps (length h0) h0 (heap ?s)"
    using invD_keeps[OF inv_alloc[OF i, of ob]] by (simp add: memo_set_def)
next
  have a: "a < length h0" using g by (auto simp: generic_def deref_def split: if_splits)
  have l: "length h0 \<le> length (heap s)" using invD_keeps[OF i] by (rule keeps_length)
  fix a' t' assume "(a', t') \<in> ?R"
  then show "a' < length h0 \<and> length h0 \<le> t' \<and> t' < length (heap ?s)"
    using invD_range[OF i, of a' t'] a l by (auto simp: memo_set_def)
next
  fix a' v assume g': "generic h0 a'"
  have nopair: "(a, t') \<notin> R" for t'
    using invD_memo[OF i g, of "Ref t'"] none by auto
  show "(memo ?s a' = Some v) = (\<exists>t'. v = Ref t' \<and> (a', t') \<in> ?R)"
  proof (cases "a' = a")
    case True
    then show ?thesis using nopair by (auto simp: memo_set_def)
  next
    case False
    then show ?thesis using invD_memo[OF i g', of v] by (simp add: memo_set_def)
  qed
next
  fix a' t' assume at: "(a', t') \<in> ?R" and np: "a' \<notin> ?P"
  then have r: "(a', t') \<in> R" and np': "a' \<notin> P" by auto
  from invD_range[OF i r] have "heap ?s ! t' = heap s ! t'" by (simp add: memo_set_def nth_append)
  moreover from invD_match[OF i r np'] have "obj_equal False (val_rel ?R) (h0 ! a') (heap s ! t')"
    by (rule obj_equal_val_rel_mono) blast
  ultimately show "obj_equal False (val_rel ?R) (h0 ! a') (heap ?s ! t')" by simp
next
  fix a1 a2 t' assume "(a1, t') \<in> ?R" "(a2, t') \<in> ?R"
  then show "a1 = a2" using invD_range[OF i, of _ "length (heap s)"] invD_inj[OF i, of a1 t' a2]
    by auto
next
  fix a' assume "a' \<in> ?P"
  then show "memo ?s a' \<noteq> None" using invD_pending[OF i, of a'] by (auto simp: memo_set_def)
qed

text \<open>The copy of an array or object ends.\<close>

lemma inv_end_generic:
  assumes i: "copy_inv h0 R (insert a P) s"
    and g: "generic h0 a"
    and at: "(a, t) \<in> R"
    and m: "obj_equal False (val_rel R) (h0 ! a) (heap s ! t)"
  shows "copy_inv h0 R P s"
proof (rule invI)
  show "keeps (length h0) h0 (heap s)" using i by (rule invD_keeps)
next
  fix a' t' assume "(a', t') \<in> R"
  then show "a' < length h0 \<and> length h0 \<le> t' \<and> t' < length (heap s)" by (rule invD_range[OF i])
next
  fix a' v assume "generic h0 a'"
  then show "(memo s a' = Some v) = (\<exists>t. v = Ref t \<and> (a', t) \<in> R)" by (rule invD_memo[OF i])
next
  fix a' t' assume r: "(a', t') \<in> R" and np: "a' \<notin> P"
  show "obj_equal False (val_rel R) (h0 ! a') (heap s ! t')"
  proof (cases "a' = a")
    case False
    with np have "a' \<notin> insert a P" by simp
    with r show ?thesis by (rule invD_match[OF i])
  next
    case True
    have "memo s a = Some (Ref t')" using invD_memo[OF i g, of "Ref t'"] r True by auto
    moreover have "memo s a = Some (Ref t)" using invD_memo[OF i g, of "Ref t"] at by auto
    ultimately have "t' = t" by simp
    with m True show ?thesis by simp
  qed
next
  fix a1 a2 t' assume "(a1, t') \<in> R" "(a2, t') \<in> R"
  then show "a1 = a2" by (rule invD_inj[OF i])
next
  fix a' assume "a' \<in> P"
  then show "memo s a' \<noteq> None" using invD_pending[OF i, of a'] by simp
qed

section \<open>The three loops keep the invariant\<close>

lemma list_all2_right_ex:
  "list_all2 Q xs ys \<Longrightarrow> y \<in> set ys \<Longrightarrow> \<exists>x \<in> set xs. Q x y"
  by (induction rule: list_all2_induct) auto

lemma list_all2_val_rel_mono:
  "list_all2 (val_rel R) xs ys \<Longrightarrow> R \<subseteq> R' \<Longrightarrow> list_all2 (val_rel R') xs ys"
  by (erule list_all2_mono) (erule val_rel_mono)

lemma goodD:
  assumes "good h0 rec" "rec v s = Inr (r, s')" "copy_inv h0 R P s" "val_ok (length h0) v"
  obtains R' where "R \<subseteq> R'" "copy_inv h0 R' P s'" "val_rel R' v (data r)"
    "\<And>a t. (a, t) \<in> R' \<Longrightarrow> (a, t) \<in> R \<or> length (heap s) \<le> t"
proof -
  from assms have "\<exists>R'. R \<subseteq> R' \<and> copy_inv h0 R' P s' \<and> val_rel R' v (data r) \<and>
      (\<forall>a t. (a, t) \<in> R' \<longrightarrow> (a, t) \<in> R \<or> length (heap s) \<le> t)"
    unfolding good_def by blast
  then show ?thesis using that by blast
qed

lemma framedD: "framed rec \<Longrightarrow> rec v s = Inr (r, s') \<Longrightarrow> keeps (length (heap s)) (heap s) (heap s')"
  unfolding framed_def by blast

lemma keeps_nth_lt: "keeps (length h) h h' \<Longrightarrow> a < length h \<Longrightarrow> h' ! a = h ! a"
  by (rule keeps_nth)

lemma forEach_set_good:
  assumes fr: "framed rec" and gd: "good h0 rec"
  shows "forEach_set rec t xs s = Inr s' \<Longrightarrow> copy_inv h0 R P s \<Longrightarrow> length h0 \<le> t \<Longrightarrow>
     t < length (heap s) \<Longrightarrow> (\<forall>a. (a, t) \<notin> R) \<Longrightarrow> heap s ! t = OSet ys \<Longrightarrow>
     list_all2 (val_rel R) xs0 ys \<Longrightarrow> distinct (xs0 @ xs) \<Longrightarrow> list_all (val_ok (length h0)) xs \<Longrightarrow>
     \<exists>R' ys'. R \<subseteq> R' \<and> copy_inv h0 R' P s' \<and> (\<forall>a. (a, t) \<notin> R') \<and> heap s' ! t = OSet ys' \<and>
        list_all2 (val_rel R') (xs0 @ xs) ys' \<and>
        (\<forall>a t'. (a, t') \<in> R' \<longrightarrow> (a, t') \<in> R \<or> length (heap s) \<le> t') \<and>
        length (heap s) \<le> length (heap s')"
proof (induction xs arbitrary: s R ys xs0)
  case Nil
  then show ?case by auto
next
  case (Cons x xs)
  from Cons.prems(1) obtain r s1 where r: "rec x s = Inr (r, s1)"
    and rest: "forEach_set rec t xs (s1\<lparr>heap := upd_obj t (set_add (data r)) (heap s1)\<rparr>) = Inr s'"
    by (auto split: sum.splits)
  have okx: "val_ok (length h0) x" using Cons.prems(9) by simp
  from goodD[OF gd r Cons.prems(2) okx] obtain R1 where R1: "R \<subseteq> R1"
    and i1: "copy_inv h0 R1 P s1" and relx: "val_rel R1 x (data r)"
    and new1: "\<And>a t'. (a, t') \<in> R1 \<Longrightarrow> (a, t') \<in> R \<or> length (heap s) \<le> t'"
    by blast
  have k1: "keeps (length (heap s)) (heap s) (heap s1)" using fr r by (rule framedD)
  have len1: "length (heap s) \<le> length (heap s1)" using k1 by (rule keeps_length)
  have t1: "t < length (heap s1)" using Cons.prems(4) len1 by simp
  have ht: "heap s1 ! t = OSet ys" using keeps_nth_lt[OF k1 Cons.prems(4)] Cons.prems(6) by simp
  have not1: "\<forall>a. (a, t) \<notin> R1" using new1 Cons.prems(4,5) by fastforce
  have notin: "data r \<notin> set ys"
  proof
    assume in_ys: "data r \<in> set ys"
    have "list_all2 (val_rel R1) xs0 ys" using Cons.prems(7) R1 by (rule list_all2_val_rel_mono)
    from list_all2_right_ex[OF this in_ys]
    obtain x' where x': "x' \<in> set xs0" "val_rel R1 x' (data r)" by blast
    from val_rel_inj[OF invD_inj_all[OF i1] x'(2) relx] have "x' = x" .
    with x'(1) Cons.prems(8) show False by simp
  qed
  let ?h2 = "upd_obj t (set_add (data r)) (heap s1)"
  let ?s2 = "s1\<lparr>heap := ?h2\<rparr>"
  have h2: "?h2 = (heap s1)[t := OSet (ys @ [data r])]"
    using t1 ht notin by (simp add: upd_obj_def set_add_def)
  have i2: "copy_inv h0 R1 P ?s2"
  proof (rule inv_heap_write[OF i1 _ Cons.prems(3)])
    show "length ?h2 = length (heap s1)" by (simp add: h2)
    show "\<And>x. x \<noteq> t \<Longrightarrow> ?h2 ! x = heap s1 ! x" by (simp add: h2)
    show "\<And>a. (a, t) \<in> R1 \<Longrightarrow> a \<in> P" using not1 by blast
  qed
  have "\<exists>R' ys'. R1 \<subseteq> R' \<and> copy_inv h0 R' P s' \<and> (\<forall>a. (a, t) \<notin> R') \<and> heap s' ! t = OSet ys' \<and>
        list_all2 (val_rel R') ((xs0 @ [x]) @ xs) ys' \<and>
        (\<forall>a t'. (a, t') \<in> R' \<longrightarrow> (a, t') \<in> R1 \<or> length (heap ?s2) \<le> t') \<and>
        length (heap ?s2) \<le> length (heap s')"
  proof (rule Cons.IH[OF rest i2 Cons.prems(3) _ not1])
    show "t < length (heap ?s2)" using t1 by (simp add: h2)
    show "heap ?s2 ! t = OSet (ys @ [data r])" using t1 by (simp add: h2)
    have "list_all2 (val_rel R1) xs0 ys" using Cons.prems(7) R1 by (rule list_all2_val_rel_mono)
    then show "list_all2 (val_rel R1) (xs0 @ [x]) (ys @ [data r])"
      using relx by (simp add: list_all2_appendI)
    show "distinct ((xs0 @ [x]) @ xs)" using Cons.prems(8) by simp
    show "list_all (val_ok (length h0)) xs" using Cons.prems(9) by simp
  qed
  then obtain R' ys' where R': "R1 \<subseteq> R'" and i': "copy_inv h0 R' P s'"
    and not': "\<forall>a. (a, t) \<notin> R'" and ht': "heap s' ! t = OSet ys'"
    and rel': "list_all2 (val_rel R') ((xs0 @ [x]) @ xs) ys'"
    and new': "\<forall>a t'. (a, t') \<in> R' \<longrightarrow> (a, t') \<in> R1 \<or> length (heap ?s2) \<le> t'"
    and len': "length (heap ?s2) \<le> length (heap s')"
    by blast
  have l2: "length (heap ?s2) = length (heap s1)" by (simp add: h2)
  have "R \<subseteq> R'" using R1 R' by blast
  moreover have "list_all2 (val_rel R') (xs0 @ x # xs) ys'" using rel' by simp
  moreover have "\<forall>a t'. (a, t') \<in> R' \<longrightarrow> (a, t') \<in> R \<or> length (heap s) \<le> t'"
  proof (intro allI impI)
    fix a t' assume "(a, t') \<in> R'"
    with new' l2 have "(a, t') \<in> R1 \<or> length (heap s1) \<le> t'" by simp
    then show "(a, t') \<in> R \<or> length (heap s) \<le> t'" using new1[of a t'] len1 by auto
  qed
  moreover have "length (heap s) \<le> length (heap s')" using len1 len' l2 by simp
  ultimately show ?case using i' not' ht' by blast
qed

lemma upd_entry_new: "k \<notin> fst ` set kvs \<Longrightarrow> upd_entry k v kvs = kvs @ [(k, v)]"
  by (induction kvs) auto

lemma list_all2_entry_rel_mono:
  assumes "list_all2 (entry_rel (val_rel R)) kvs kws" "R \<subseteq> R'"
  shows "list_all2 (entry_rel (val_rel R')) kvs kws"
  using assms(1)
proof (rule list_all2_mono)
  fix p q assume "entry_rel (val_rel R) p q"
  then show "entry_rel (val_rel R') p q"
    using assms(2) by (cases p; cases q) (auto elim: val_rel_mono)
qed

lemma forEach_map_good:
  assumes fr: "framed rec" and gd: "good h0 rec"
  shows "forEach_map rec t kvs s = Inr s' \<Longrightarrow> copy_inv h0 R P s \<Longrightarrow> length h0 \<le> t \<Longrightarrow>
     t < length (heap s) \<Longrightarrow> (\<forall>a. (a, t) \<notin> R) \<Longrightarrow> heap s ! t = OMap kws \<Longrightarrow>
     list_all2 (entry_rel (val_rel R)) kvs0 kws \<Longrightarrow> distinct (map fst (kvs0 @ kvs)) \<Longrightarrow>
     list_all (val_ok (length h0)) (map fst kvs) \<Longrightarrow> list_all (val_ok (length h0)) (map snd kvs) \<Longrightarrow>
     \<exists>R' kws'. R \<subseteq> R' \<and> copy_inv h0 R' P s' \<and> (\<forall>a. (a, t) \<notin> R') \<and> heap s' ! t = OMap kws' \<and>
        list_all2 (entry_rel (val_rel R')) (kvs0 @ kvs) kws' \<and>
        (\<forall>a t'. (a, t') \<in> R' \<longrightarrow> (a, t') \<in> R \<or> length (heap s) \<le> t') \<and>
        length (heap s) \<le> length (heap s')"
proof (induction kvs arbitrary: s R kws kvs0)
  case Nil
  then show ?case by auto
next
  case (Cons kv kvs)
  obtain k v where kv: "kv = (k, v)" by (cases kv)
  from Cons.prems(1) kv obtain kr s1 vr s2 where rk: "rec k s = Inr (kr, s1)"
    and rv: "rec v s1 = Inr (vr, s2)"
    and rest: "forEach_map rec t kvs
        (s2\<lparr>heap := upd_obj t (map_set (data kr) (data vr)) (heap s2)\<rparr>) = Inr s'"
    by (auto split: sum.splits)
  have okk: "val_ok (length h0) k" using Cons.prems(9) kv by simp
  have okv: "val_ok (length h0) v" using Cons.prems(10) kv by simp
  from goodD[OF gd rk Cons.prems(2) okk] obtain R1 where R1: "R \<subseteq> R1"
    and i1: "copy_inv h0 R1 P s1" and relk1: "val_rel R1 k (data kr)"
    and new1: "\<And>a t'. (a, t') \<in> R1 \<Longrightarrow> (a, t') \<in> R \<or> length (heap s) \<le> t'"
    by blast
  from goodD[OF gd rv i1 okv] obtain R2 where R2: "R1 \<subseteq> R2"
    and i2: "copy_inv h0 R2 P s2" and relv: "val_rel R2 v (data vr)"
    and new2: "\<And>a t'. (a, t') \<in> R2 \<Longrightarrow> (a, t') \<in> R1 \<or> length (heap s1) \<le> t'"
    by blast
  have relk: "val_rel R2 k (data kr)" using relk1 R2 by (rule val_rel_mono)
  have k1: "keeps (length (heap s)) (heap s) (heap s1)" using fr rk by (rule framedD)
  have k2: "keeps (length (heap s1)) (heap s1) (heap s2)" using fr rv by (rule framedD)
  have len1: "length (heap s) \<le> length (heap s1)" using k1 by (rule keeps_length)
  have len2: "length (heap s1) \<le> length (heap s2)" using k2 by (rule keeps_length)
  have t1: "t < length (heap s1)" using Cons.prems(4) len1 by simp
  have t2: "t < length (heap s2)" using t1 len2 by simp
  have "heap s1 ! t = OMap kws" using keeps_nth_lt[OF k1 Cons.prems(4)] Cons.prems(6) by simp
  then have ht: "heap s2 ! t = OMap kws" using keeps_nth_lt[OF k2 t1] by simp
  have new12: "(a, t') \<in> R \<or> length (heap s) \<le> t'" if "(a, t') \<in> R2" for a t'
    using new2[OF that] new1[of a t'] len1 by auto
  have not2: "\<forall>a. (a, t) \<notin> R2" using new12 Cons.prems(4,5) by fastforce
  have rel0: "list_all2 (entry_rel (val_rel R2)) kvs0 kws"
    using Cons.prems(7) by (rule list_all2_entry_rel_mono) (use R1 R2 in blast)
  have notin: "data kr \<notin> fst ` set kws"
  proof
    assume "data kr \<in> fst ` set kws"
    then obtain w where in_kws: "(data kr, w) \<in> set kws" by auto
    from list_all2_right_ex[OF rel0 in_kws]
    obtain p where p: "p \<in> set kvs0" "entry_rel (val_rel R2) p (data kr, w)" by blast
    obtain k' v' where p': "p = (k', v')" by (cases p)
    with p(2) have "val_rel R2 k' (data kr)" by simp
    from val_rel_inj[OF invD_inj_all[OF i2] this relk] have "k' = k" .
    with p(1) p' have "k \<in> fst ` set kvs0" by force
    with Cons.prems(8) kv show False by auto
  qed
  let ?h3 = "upd_obj t (map_set (data kr) (data vr)) (heap s2)"
  let ?s3 = "s2\<lparr>heap := ?h3\<rparr>"
  have h3: "?h3 = (heap s2)[t := OMap (kws @ [(data kr, data vr)])]"
    using t2 ht notin by (simp add: upd_obj_def map_set_def upd_entry_new)
  have i3: "copy_inv h0 R2 P ?s3"
  proof (rule inv_heap_write[OF i2 _ Cons.prems(3)])
    show "length ?h3 = length (heap s2)" by (simp add: h3)
    show "\<And>x. x \<noteq> t \<Longrightarrow> ?h3 ! x = heap s2 ! x" by (simp add: h3)
    show "\<And>a. (a, t) \<in> R2 \<Longrightarrow> a \<in> P" using not2 by blast
  qed
  have "\<exists>R' kws'. R2 \<subseteq> R' \<and> copy_inv h0 R' P s' \<and> (\<forall>a. (a, t) \<notin> R') \<and> heap s' ! t = OMap kws' \<and>
        list_all2 (entry_rel (val_rel R')) ((kvs0 @ [(k, v)]) @ kvs) kws' \<and>
        (\<forall>a t'. (a, t') \<in> R' \<longrightarrow> (a, t') \<in> R2 \<or> length (heap ?s3) \<le> t') \<and>
        length (heap ?s3) \<le> length (heap s')"
  proof (rule Cons.IH[OF rest i3 Cons.prems(3) _ not2])
    show "t < length (heap ?s3)" using t2 by (simp add: h3)
    show "heap ?s3 ! t = OMap (kws @ [(data kr, data vr)])" using t2 by (simp add: h3)
    show "list_all2 (entry_rel (val_rel R2)) (kvs0 @ [(k, v)]) (kws @ [(data kr, data vr)])"
      using rel0 relk relv by (simp add: list_all2_appendI)
    show "distinct (map fst ((kvs0 @ [(k, v)]) @ kvs))" using Cons.prems(8) kv by simp
    show "list_all (val_ok (length h0)) (map fst kvs)" using Cons.prems(9) by simp
    show "list_all (val_ok (length h0)) (map snd kvs)" using Cons.prems(10) by simp
  qed
  then obtain R' kws' where R': "R2 \<subseteq> R'" and i': "copy_inv h0 R' P s'"
    and not': "\<forall>a. (a, t) \<notin> R'" and ht': "heap s' ! t = OMap kws'"
    and rel': "list_all2 (entry_rel (val_rel R')) ((kvs0 @ [(k, v)]) @ kvs) kws'"
    and new': "\<forall>a t'. (a, t') \<in> R' \<longrightarrow> (a, t') \<in> R2 \<or> length (heap ?s3) \<le> t'"
    and len': "length (heap ?s3) \<le> length (heap s')"
    by blast
  have l3: "length (heap ?s3) = length (heap s2)" by (simp add: h3)
  have "R \<subseteq> R'" using R1 R2 R' by blast
  moreover have "list_all2 (entry_rel (val_rel R')) (kvs0 @ kv # kvs) kws'" using rel' kv by simp
  moreover have "\<forall>a t'. (a, t') \<in> R' \<longrightarrow> (a, t') \<in> R \<or> length (heap s) \<le> t'"
  proof (intro allI impI)
    fix a t' assume "(a, t') \<in> R'"
    with new' l3 have "(a, t') \<in> R2 \<or> length (heap s2) \<le> t'" by simp
    then show "(a, t') \<in> R \<or> length (heap s) \<le> t'" using new12[of a t'] len1 len2 by auto
  qed
  moreover have "length (heap s) \<le> length (heap s')" using len1 len2 len' l3 by simp
  ultimately show ?case using i' not' ht' by blast
qed

lemma prop_val_ok:
  assumes "list_all (val_ok L) (map (fst \<circ> snd) ps)"
  shows "val_ok L (prop_val ps k)"
proof (cases "map_of ps k")
  case None
  then show ?thesis by (simp add: prop_val_def val_ok_def)
next
  case (Some p)
  obtain v e where p: "p = (v, e)" by (cases p)
  with Some have "(k, v, e) \<in> set ps" by (auto dest: map_of_SomeD)
  moreover from assms have "\<forall>q \<in> set ps. val_ok L (fst (snd q))" by (simp add: list_all_iff)
  ultimately have "val_ok L (fst (snd (k, v, e)))" by blast
  then have "val_ok L v" by simp
  with Some p show ?thesis by (simp add: prop_val_def)
qed

lemma target_inv_mono: "target_inv b ps D tps R \<Longrightarrow> R \<subseteq> R' \<Longrightarrow> target_inv b ps D tps R'"
  unfolding target_inv_def by (blast intro: val_rel_mono)

lemma forEach_keys_good:
  assumes fr: "framed rec" and gd: "good h0 rec"
    and src: "deref h0 a = Some (OObj b ps)"
    and vals: "list_all (val_ok (length h0)) (map (fst \<circ> snd) ps)"
    and idx: "b \<Longrightarrow> \<forall>k \<in> fst ` set ps. index_ok (array_len ps) k"
    and np: "\<not> has_key (KStr ''__proto__'') ps" "b \<Longrightarrow> \<not> has_key (KSym Unscopables) ps"
    and pend: "a \<in> P"
  shows "forEach_keys rec a t ks s = Inr s' \<Longrightarrow> copy_inv h0 R P s \<Longrightarrow> (a, t) \<in> R \<Longrightarrow>
     heap s ! t = OObj b tps \<Longrightarrow> set ks \<subseteq> fst ` set ps \<Longrightarrow> D \<subseteq> fst ` set ps \<Longrightarrow>
     target_inv b ps D tps R \<Longrightarrow>
     \<exists>R' tps'. R \<subseteq> R' \<and> copy_inv h0 R' P s' \<and> heap s' ! t = OObj b tps' \<and>
        target_inv b ps (D \<union> set ks) tps' R' \<and>
        (\<forall>a t'. (a, t') \<in> R' \<longrightarrow> (a, t') \<in> R \<or> length (heap s) \<le> t') \<and>
        length (heap s) \<le> length (heap s')"
proof (induction ks arbitrary: s R tps D)
  case Nil
  then show ?case by auto
next
  case (Cons k ks)
  have a0: "a < length h0" using src by (rule deref_lt)
  have srcs: "deref (heap s) a = Some (OObj b ps)"
    using invD_keeps[OF Cons.prems(2)] a0 src by (rule keeps_deref)
  then have gp: "get_prop (heap s) a k = prop_val ps k" by (simp add: get_prop_def)
  from Cons.prems(1) gp obtain r s1 h2 where r: "rec (prop_val ps k) s = Inr (r, s1)"
    and asg: "assign t k (data r) (heap s1) = Inr h2"
    and rest: "forEach_keys rec a t ks (s1\<lparr>heap := h2\<rparr>) = Inr s'"
    by (auto split: sum.splits)
  have okv: "val_ok (length h0) (prop_val ps k)" using vals by (rule prop_val_ok)
  from goodD[OF gd r Cons.prems(2) okv] obtain R1 where R1: "R \<subseteq> R1"
    and i1: "copy_inv h0 R1 P s1" and relv: "val_rel R1 (prop_val ps k) (data r)"
    and new1: "\<And>a t'. (a, t') \<in> R1 \<Longrightarrow> (a, t') \<in> R \<or> length (heap s) \<le> t'"
    by blast
  have at1: "(a, t) \<in> R1" using Cons.prems(3) R1 by blast
  have tr: "length h0 \<le> t" "t < length (heap s)" using invD_range[OF Cons.prems(2,3)] by simp_all
  have k1: "keeps (length (heap s)) (heap s) (heap s1)" using fr r by (rule framedD)
  have len1: "length (heap s) \<le> length (heap s1)" using k1 by (rule keeps_length)
  have t1: "t < length (heap s1)" using tr(2) len1 by simp
  have ht: "heap s1 ! t = OObj b tps" using keeps_nth_lt[OF k1 tr(2)] Cons.prems(4) by simp
  from asg t1 ht obtain tps2 where ap: "assign_props b k (data r) tps = Inr tps2"
    and h2: "h2 = (heap s1)[t := OObj b tps2]"
    by (auto simp: assign_def deref_def split: sum.splits)
  have kin: "k \<in> fst ` set ps" using Cons.prems(5) by simp
  have ti1: "target_inv b ps D tps R1" using Cons.prems(7) R1 by (rule target_inv_mono)
  have nk: "k \<noteq> KStr ''__proto__''" "\<not> (b \<and> k = KSym Unscopables)"
    using kin np unfolding has_key_def by blast+
  have ti2: "target_inv b ps (insert k D) tps2 R1"
    using ap nk ti1 relv kin Cons.prems(6) idx by (rule assign_target_inv)
  let ?s2 = "s1\<lparr>heap := h2\<rparr>"
  have i2: "copy_inv h0 R1 P ?s2"
  proof (rule inv_heap_write[OF i1 _ tr(1)])
    show "length h2 = length (heap s1)" by (simp add: h2)
    show "\<And>x. x \<noteq> t \<Longrightarrow> h2 ! x = heap s1 ! x" by (simp add: h2)
    fix a' assume "(a', t) \<in> R1"
    from invD_inj[OF i1 this at1] pend show "a' \<in> P" by simp
  qed
  have "\<exists>R' tps'. R1 \<subseteq> R' \<and> copy_inv h0 R' P s' \<and> heap s' ! t = OObj b tps' \<and>
        target_inv b ps (insert k D \<union> set ks) tps' R' \<and>
        (\<forall>a t'. (a, t') \<in> R' \<longrightarrow> (a, t') \<in> R1 \<or> length (heap ?s2) \<le> t') \<and>
        length (heap ?s2) \<le> length (heap s')"
  proof (rule Cons.IH[OF rest i2 at1 _ _ _ ti2])
    show "heap ?s2 ! t = OObj b tps2" using t1 by (simp add: h2)
    show "set ks \<subseteq> fst ` set ps" using Cons.prems(5) by simp
    show "insert k D \<subseteq> fst ` set ps" using kin Cons.prems(6) by simp
  qed
  then obtain R' tps' where R': "R1 \<subseteq> R'" and i': "copy_inv h0 R' P s'"
    and ht': "heap s' ! t = OObj b tps'"
    and ti': "target_inv b ps (insert k D \<union> set ks) tps' R'"
    and new': "\<forall>a t'. (a, t') \<in> R' \<longrightarrow> (a, t') \<in> R1 \<or> length (heap ?s2) \<le> t'"
    and len': "length (heap ?s2) \<le> length (heap s')"
    by blast
  have l2: "length (heap ?s2) = length (heap s1)" by (simp add: h2)
  have "R \<subseteq> R'" using R1 R' by blast
  moreover have "target_inv b ps (D \<union> set (k # ks)) tps' R'" using ti' by simp
  moreover have "\<forall>a t'. (a, t') \<in> R' \<longrightarrow> (a, t') \<in> R \<or> length (heap s) \<le> t'"
  proof (intro allI impI)
    fix a' t' assume "(a', t') \<in> R'"
    with new' l2 have "(a', t') \<in> R1 \<or> length (heap s1) \<le> t'" by simp
    then show "(a', t') \<in> R \<or> length (heap s) \<le> t'" using new1[of a' t'] len1 by auto
  qed
  moreover have "length (heap s) \<le> length (heap s')" using len1 len' l2 by simp
  ultimately show ?case using i' ht' by blast
qed

section \<open>Every call keeps the invariant\<close>

lemma wf_heapD: "wf_heap h \<Longrightarrow> deref h a = Some ob \<Longrightarrow> wf_obj (length h) ob"
  by (auto simp: wf_heap_def deref_def list_all_length split: if_splits)

lemma generic_OObj: "deref h a = Some (OObj b ps) \<Longrightarrow> generic h a"
  by (simp add: generic_def)

lemma not_generic:
  "deref h a = Some ob \<Longrightarrow> (\<And>b ps. ob \<noteq> OObj b ps) \<Longrightarrow> \<not> generic h a"
  by (cases ob) (auto simp: generic_def)

lemma deref_nth: "deref h a = Some ob \<Longrightarrow> h ! a = ob"
  by (auto simp: deref_def split: if_splits)

lemma good_result_I:
  assumes "R \<subseteq> R'" "copy_inv h0 R' P s'" "val_rel R' v w"
    "\<And>a t. (a, t) \<in> R' \<Longrightarrow> (a, t) \<in> R \<or> L \<le> t"
  shows "\<exists>R'. R \<subseteq> R' \<and> copy_inv h0 R' P s' \<and> val_rel R' v w \<and>
      (\<forall>a t. (a, t) \<in> R' \<longrightarrow> (a, t) \<in> R \<or> L \<le> t)"
  using assms by blast

text \<open>A clone that is complete when it is allocated, or when its loop has ended.\<close>

lemma finished_clone_good:
  assumes i: "copy_inv h0 R1 P s'"
    and sub: "R \<subseteq> R1"
    and src: "deref h0 a = Some ob" and ng: "\<not> generic h0 a"
    and t: "length h0 \<le> t" "t < length (heap s')"
    and fresh: "\<And>a'. (a', t) \<notin> R1"
    and m: "obj_equal False (val_rel (insert (a, t) R1)) ob (heap s' ! t)"
    and new: "\<And>a' t'. (a', t') \<in> R1 \<Longrightarrow> (a', t') \<in> R \<or> L \<le> t'"
    and L: "L \<le> t"
  shows "\<exists>R'. R \<subseteq> R' \<and> copy_inv h0 R' P s' \<and> val_rel R' (Ref a) (Ref t) \<and>
      (\<forall>a t. (a, t) \<in> R' \<longrightarrow> (a, t) \<in> R \<or> L \<le> t)"
proof (rule good_result_I)
  show "R \<subseteq> insert (a, t) R1" using sub by blast
  have "h0 ! a = ob" using src by (rule deref_nth)
  with m have m': "obj_equal False (val_rel (insert (a, t) R1)) (h0 ! a) (heap s' ! t)" by simp
  show "copy_inv h0 (insert (a, t) R1) P s'"
    using i ng deref_lt[OF src] t fresh m' by (rule inv_add_finished)
  show "val_rel (insert (a, t) R1) (Ref a) (Ref t)" by (simp add: val_rel_def)
  fix a' t' assume "(a', t') \<in> insert (a, t) R1"
  then show "(a', t') \<in> R \<or> L \<le> t'" using new[of a' t'] L by auto
qed

lemma deepCopy_obj_good:
  assumes wf: "wf_heap h0" and fr: "framed rec" and gd: "good h0 rec"
    and call: "deepCopy_obj rec a ob s = Inr (r, s')"
    and i: "copy_inv h0 R P s" and src: "deref h0 a = Some ob"
  shows "\<exists>R'. R \<subseteq> R' \<and> copy_inv h0 R' P s' \<and> val_rel R' (Ref a) (data r) \<and>
      (\<forall>a t. (a, t) \<in> R' \<longrightarrow> (a, t) \<in> R \<or> length (heap s) \<le> t)"
proof -
  let ?t = "length (heap s)"
  have L0: "length h0 \<le> ?t" using invD_keeps[OF i] by (rule keeps_length)
  have fresh: "(a', ?t) \<notin> R" for a' using invD_range[OF i, of a' ?t] by auto
  have wfo: "wf_obj (length h0) ob" using wf src by (rule wf_heapD)
  show ?thesis
  proof (cases ob)
    case (ODate tv)
    let ?s1 = "s\<lparr>heap := heap s @ [ODate tv]\<rparr>"
    from call ODate have s': "s' = ?s1" and d: "data r = Ref ?t"
      by (auto simp: deepCopy_obj_def alloc_def)
    have "\<exists>R'. R \<subseteq> R' \<and> copy_inv h0 R' P ?s1 \<and> val_rel R' (Ref a) (Ref ?t) \<and>
      (\<forall>a t. (a, t) \<in> R' \<longrightarrow> (a, t) \<in> R \<or> ?t \<le> t)"
    proof (rule finished_clone_good[OF inv_alloc[OF i] subset_refl src])
      show "\<not> generic h0 a" using src ODate by (simp add: generic_def)
      show "length h0 \<le> ?t" by (rule L0)
      show "?t < length (heap ?s1)" by simp
      show "\<And>a'. (a', ?t) \<notin> R" by (rule fresh)
      show "obj_equal False (val_rel (insert (a, ?t) R)) ob (heap ?s1 ! ?t)" using ODate by simp
      show "\<And>a' t'. (a', t') \<in> R \<Longrightarrow> (a', t') \<in> R \<or> ?t \<le> t'" by simp
      show "?t \<le> ?t" by simp
    qed
    with s' d show ?thesis by simp
  next
    case (ORegExp p f li)
    let ?s1 = "s\<lparr>heap := heap s @ [ORegExp p f li]\<rparr>"
    from call ORegExp have s': "s' = ?s1" and d: "data r = Ref ?t"
      by (auto simp: deepCopy_obj_def alloc_def upd_obj_def set_lastIndex_def)
    have "\<exists>R'. R \<subseteq> R' \<and> copy_inv h0 R' P ?s1 \<and> val_rel R' (Ref a) (Ref ?t) \<and>
      (\<forall>a t. (a, t) \<in> R' \<longrightarrow> (a, t) \<in> R \<or> ?t \<le> t)"
    proof (rule finished_clone_good[OF inv_alloc[OF i] subset_refl src])
      show "\<not> generic h0 a" using src ORegExp by (simp add: generic_def)
      show "length h0 \<le> ?t" by (rule L0)
      show "?t < length (heap ?s1)" by simp
      show "\<And>a'. (a', ?t) \<notin> R" by (rule fresh)
      show "obj_equal False (val_rel (insert (a, ?t) R)) ob (heap ?s1 ! ?t)" using ORegExp by simp
      show "\<And>a' t'. (a', t') \<in> R \<Longrightarrow> (a', t') \<in> R \<or> ?t \<le> t'" by simp
      show "?t \<le> ?t" by simp
    qed
    with s' d show ?thesis by simp
  next
    case (OSet xs)
    let ?s2 = "memo_set a (Ref ?t) (s\<lparr>heap := heap s @ [OSet []]\<rparr>)"
    from call OSet have loop: "forEach_set rec ?t xs ?s2 = Inr s'" and d: "data r = Ref ?t"
      by (auto simp: deepCopy_obj_def alloc_def split: sum.splits)
    have ng: "\<not> generic h0 a" using src OSet by (simp add: generic_def)
    have i2: "copy_inv h0 R P ?s2" using inv_alloc[OF i] ng by (rule inv_memo_set)
    have "\<exists>R' ys'. R \<subseteq> R' \<and> copy_inv h0 R' P s' \<and> (\<forall>a. (a, ?t) \<notin> R') \<and> heap s' ! ?t = OSet ys' \<and>
        list_all2 (val_rel R') ([] @ xs) ys' \<and>
        (\<forall>a t'. (a, t') \<in> R' \<longrightarrow> (a, t') \<in> R \<or> length (heap ?s2) \<le> t') \<and>
        length (heap ?s2) \<le> length (heap s')"
    proof (rule forEach_set_good[OF fr gd loop i2 L0])
      show "?t < length (heap ?s2)" by (simp add: memo_set_def)
      show "\<forall>a. (a, ?t) \<notin> R" using fresh by blast
      show "heap ?s2 ! ?t = OSet []" by (simp add: memo_set_def)
      show "list_all2 (val_rel R) [] []" by simp
      show "distinct ([] @ xs)" using wfo OSet by simp
      show "list_all (val_ok (length h0)) xs" using wfo OSet by simp
    qed
    then obtain R1 ys' where R1: "R \<subseteq> R1" and i1: "copy_inv h0 R1 P s'"
      and not1: "\<forall>a. (a, ?t) \<notin> R1" and ht: "heap s' ! ?t = OSet ys'"
      and rel: "list_all2 (val_rel R1) xs ys'"
      and new1: "\<forall>a t'. (a, t') \<in> R1 \<longrightarrow> (a, t') \<in> R \<or> length (heap ?s2) \<le> t'"
      and len: "length (heap ?s2) \<le> length (heap s')"
      by auto
    have "\<exists>R'. R \<subseteq> R' \<and> copy_inv h0 R' P s' \<and> val_rel R' (Ref a) (Ref ?t) \<and>
      (\<forall>a t. (a, t) \<in> R' \<longrightarrow> (a, t) \<in> R \<or> ?t \<le> t)"
    proof (rule finished_clone_good[OF i1 R1 src ng L0])
      show "?t < length (heap s')" using len by (simp add: memo_set_def)
      show "\<And>a'. (a', ?t) \<notin> R1" using not1 by blast
      have "list_all2 (val_rel (insert (a, ?t) R1)) xs ys'"
        using rel by (rule list_all2_val_rel_mono) blast
      then show "obj_equal False (val_rel (insert (a, ?t) R1)) ob (heap s' ! ?t)"
        using OSet ht by simp
      show "\<And>a' t'. (a', t') \<in> R1 \<Longrightarrow> (a', t') \<in> R \<or> ?t \<le> t'"
        using new1 by (fastforce simp: memo_set_def)
      show "?t \<le> ?t" by simp
    qed
    with d show ?thesis by simp
  next
    case (OMap kvs)
    let ?s2 = "memo_set a (Ref ?t) (s\<lparr>heap := heap s @ [OMap []]\<rparr>)"
    from call OMap have loop: "forEach_map rec ?t kvs ?s2 = Inr s'" and d: "data r = Ref ?t"
      by (auto simp: deepCopy_obj_def alloc_def split: sum.splits)
    have ng: "\<not> generic h0 a" using src OMap by (simp add: generic_def)
    have i2: "copy_inv h0 R P ?s2" using inv_alloc[OF i] ng by (rule inv_memo_set)
    have "\<exists>R' kws'. R \<subseteq> R' \<and> copy_inv h0 R' P s' \<and> (\<forall>a. (a, ?t) \<notin> R') \<and> heap s' ! ?t = OMap kws' \<and>
        list_all2 (entry_rel (val_rel R')) ([] @ kvs) kws' \<and>
        (\<forall>a t'. (a, t') \<in> R' \<longrightarrow> (a, t') \<in> R \<or> length (heap ?s2) \<le> t') \<and>
        length (heap ?s2) \<le> length (heap s')"
    proof (rule forEach_map_good[OF fr gd loop i2 L0])
      show "?t < length (heap ?s2)" by (simp add: memo_set_def)
      show "\<forall>a. (a, ?t) \<notin> R" using fresh by blast
      show "heap ?s2 ! ?t = OMap []" by (simp add: memo_set_def)
      show "list_all2 (entry_rel (val_rel R)) [] []" by simp
      show "distinct (map fst ([] @ kvs))" using wfo OMap by simp
      show "list_all (val_ok (length h0)) (map fst kvs)" using wfo OMap by simp
      show "list_all (val_ok (length h0)) (map snd kvs)" using wfo OMap by simp
    qed
    then obtain R1 kws' where R1: "R \<subseteq> R1" and i1: "copy_inv h0 R1 P s'"
      and not1: "\<forall>a. (a, ?t) \<notin> R1" and ht: "heap s' ! ?t = OMap kws'"
      and rel: "list_all2 (entry_rel (val_rel R1)) kvs kws'"
      and new1: "\<forall>a t'. (a, t') \<in> R1 \<longrightarrow> (a, t') \<in> R \<or> length (heap ?s2) \<le> t'"
      and len: "length (heap ?s2) \<le> length (heap s')"
      by auto
    have "\<exists>R'. R \<subseteq> R' \<and> copy_inv h0 R' P s' \<and> val_rel R' (Ref a) (Ref ?t) \<and>
      (\<forall>a t. (a, t) \<in> R' \<longrightarrow> (a, t) \<in> R \<or> ?t \<le> t)"
    proof (rule finished_clone_good[OF i1 R1 src ng L0])
      show "?t < length (heap s')" using len by (simp add: memo_set_def)
      show "\<And>a'. (a', ?t) \<notin> R1" using not1 by blast
      have "list_all2 (entry_rel (val_rel (insert (a, ?t) R1))) kvs kws'"
        using rel by (rule list_all2_entry_rel_mono) blast
      then show "obj_equal False (val_rel (insert (a, ?t) R1)) ob (heap s' ! ?t)"
        using OMap ht by simp
      show "\<And>a' t'. (a', t') \<in> R1 \<Longrightarrow> (a', t') \<in> R \<or> ?t \<le> t'"
        using new1 by (fastforce simp: memo_set_def)
      show "?t \<le> ?t" by simp
    qed
    with d show ?thesis by simp
  next
    case (OObj b ps)
    have g: "generic h0 a" using src OObj by (simp add: generic_def)
    show ?thesis
    proof (cases "memo s a")
      case (Some c)
      with call OObj have s': "s' = s" and d: "data r = c" by (auto simp: deepCopy_obj_def)
      from invD_memo[OF i g, of c] Some obtain t where "c = Ref t" "(a, t) \<in> R" by auto
      then have "val_rel R (Ref a) (data r)" using d by (simp add: val_rel_def)
      with i s' show ?thesis by blast
    next
      case None
      let ?tps0 = "if b then [(KStr ''length'', Prim (Num 0), False)] else []"
      let ?s2 = "memo_set a (Ref ?t) (s\<lparr>heap := heap s @ [new_container b]\<rparr>)"
      let ?R0 = "insert (a, ?t) R"
      from call OObj None have loop: "forEach_keys rec a ?t (map fst ps) ?s2 = Inr s'"
        and d: "data r = Ref ?t"
        by (auto simp: deepCopy_obj_def alloc_def split: sum.splits)
      have i2: "copy_inv h0 ?R0 (insert a P) ?s2" using i g None by (rule inv_begin_generic)
      have src': "deref h0 a = Some (OObj b ps)" using src OObj by simp
      have vals: "list_all (val_ok (length h0)) (map (fst \<circ> snd) ps)" using wfo OObj by simp
      have idx: "\<forall>k \<in> fst ` set ps. index_ok (array_len ps) k" if "b"
        using wfo OObj that by (simp add: list_all_iff)
      have np: "\<not> has_key (KStr ''__proto__'') ps" "b \<Longrightarrow> \<not> has_key (KSym Unscopables) ps"
        using wfo OObj by simp_all
      have lenkey: "KStr ''length'' \<in> fst ` set ps" if "b"
        using wfo OObj that by (simp add: has_key_def)
      have "\<exists>R' tps'. ?R0 \<subseteq> R' \<and> copy_inv h0 R' (insert a P) s' \<and> heap s' ! ?t = OObj b tps' \<and>
        target_inv b ps ({} \<union> set (map fst ps)) tps' R' \<and>
        (\<forall>a t'. (a, t') \<in> R' \<longrightarrow> (a, t') \<in> ?R0 \<or> length (heap ?s2) \<le> t') \<and>
        length (heap ?s2) \<le> length (heap s')"
      proof (rule forEach_keys_good[OF fr gd src' vals idx np _ loop i2])
        show "a \<in> insert a P" by simp
        show "(a, ?t) \<in> ?R0" by simp
        show "heap ?s2 ! ?t = OObj b ?tps0" by (simp add: memo_set_def new_container_def)
        show "set (map fst ps) \<subseteq> fst ` set ps" by simp
        show "{} \<subseteq> fst ` set ps" by simp
        show "target_inv b ps {} ?tps0 ?R0" by (simp add: target_inv_def)
      qed
      then obtain R1 tps' where R1: "?R0 \<subseteq> R1" and i1: "copy_inv h0 R1 (insert a P) s'"
        and ht: "heap s' ! ?t = OObj b tps'"
        and ti: "target_inv b ps (set (map fst ps)) tps' R1"
        and new1: "\<forall>a t'. (a, t') \<in> R1 \<longrightarrow> (a, t') \<in> ?R0 \<or> length (heap ?s2) \<le> t'"
        by auto
      have at: "(a, ?t) \<in> R1" using R1 by blast
      have keys: "set (map fst ps) = set (map fst tps')"
        using ti lenkey by (auto simp: target_inv_def)
      have "\<forall>k \<in> set (map fst ps). val_rel R1 (prop_val ps k) (prop_val tps' k)"
        using ti by (simp add: target_inv_def)
      then have "list_all (\<lambda>k. val_rel R1 (prop_val ps k) (prop_val tps' k)) (map fst ps)"
        by (simp add: list_all_iff)
      with keys have "obj_equal False (val_rel R1) (OObj b ps) (OObj b tps')" by simp
      then have m: "obj_equal False (val_rel R1) (h0 ! a) (heap s' ! ?t)"
        using deref_nth[OF src'] ht by simp
      have i': "copy_inv h0 R1 P s'" using i1 g at m by (rule inv_end_generic)
      show ?thesis
      proof (rule good_result_I)
        show "R \<subseteq> R1" using R1 by blast
        show "copy_inv h0 R1 P s'" by (rule i')
        show "val_rel R1 (Ref a) (data r)" using at d by (simp add: val_rel_def)
        fix a' t' assume "(a', t') \<in> R1"
        with new1 have "(a', t') \<in> ?R0 \<or> length (heap ?s2) \<le> t'" by blast
        then show "(a', t') \<in> R \<or> ?t \<le> t'" by (auto simp: memo_set_def)
      qed
    qed
  qed
qed

lemma deepCopy_good: "wf_heap h0 \<Longrightarrow> good h0 (deepCopy n)"
proof (induction n)
  case 0
  show ?case by (simp add: good_def)
next
  case (Suc n)
  show ?case unfolding good_def
  proof (intro allI impI)
    fix v s r s' R P
    assume call: "deepCopy (Suc n) v s = Inr (r, s')" and i: "copy_inv h0 R P s"
      and ok: "val_ok (length h0) v"
    show "\<exists>R'. R \<subseteq> R' \<and> copy_inv h0 R' P s' \<and> val_rel R' v (data r) \<and>
        (\<forall>a t. (a, t) \<in> R' \<longrightarrow> (a, t) \<in> R \<or> length (heap s) \<le> t)"
    proof (cases v)
      case (Prim p)
      with call have "s' = s" "data r = Prim p" by auto
      with i Prim show ?thesis by (auto simp: val_rel_def)
    next
      case (Ref a)
      with ok have a: "a < length h0" by (simp add: val_ok_def)
      then have src: "deref h0 a = Some (h0 ! a)" by (simp add: deref_def)
      have "deref (heap s) a = Some (h0 ! a)" using invD_keeps[OF i] a src by (rule keeps_deref)
      with call Ref have "deepCopy_obj (deepCopy n) a (h0 ! a) s = Inr (r, s')" by simp
      from deepCopy_obj_good[OF Suc.prems deepCopy_framed Suc.IH[OF Suc.prems] this i src] Ref
      show ?thesis by simp
    qed
  qed
qed

section \<open>The clone corresponds to the source\<close>

lemma copy_inv_init: "copy_inv h {} {} \<lparr>heap = h, memo = Map.empty\<rparr>"
  by (rule invI) (simp_all add: keeps_refl)

lemma deepClone_correspondence:
  assumes wf: "wf_heap h" and ok: "val_ok (length h) v"
    and call: "deepClone n v h = Inr (r, h')"
  obtains R where "val_rel R v (data r)"
    and "\<And>a t. (a, t) \<in> R \<Longrightarrow> a < length h \<and> length h \<le> t \<and> t < length h'"
    and "\<And>a t. (a, t) \<in> R \<Longrightarrow> obj_equal False (val_rel R) (h ! a) (h' ! t)"
    and "\<And>a t t'. (a, t) \<in> R \<Longrightarrow> (a, t') \<in> R \<Longrightarrow> generic h a \<Longrightarrow> t = t'"
proof -
  from deepClone_Inr[OF call]
  obtain s' where c: "deepCopy n v \<lparr>heap = h, memo = Map.empty\<rparr> = Inr (r, s')"
    and h': "h' = heap s'"
    by blast
  have "\<exists>R. copy_inv h R {} s' \<and> val_rel R v (data r)"
  proof (rule goodD[OF deepCopy_good[OF wf] c copy_inv_init ok])
    fix R' assume "copy_inv h R' {} s'" "val_rel R' v (data r)"
    then show ?thesis by (intro exI conjI)
  qed
  then obtain R where i: "copy_inv h R {} s'" and rel: "val_rel R v (data r)"
    by (elim exE conjE)
  show ?thesis
  proof (rule that[of R])
    show "val_rel R v (data r)" by (rule rel)
    show "\<And>a t. (a, t) \<in> R \<Longrightarrow> a < length h \<and> length h \<le> t \<and> t < length h'"
      unfolding h' by (rule invD_range[OF i])
    show "\<And>a t. (a, t) \<in> R \<Longrightarrow> obj_equal False (val_rel R) (h ! a) (h' ! t)"
      unfolding h' by (rule invD_match[OF i]) simp_all
    fix a t t' assume at: "(a, t) \<in> R" and at': "(a, t') \<in> R" and g: "generic h a"
    have "memo s' a = Some (Ref t)" using invD_memo[OF i g, of "Ref t"] at by blast
    moreover have "memo s' a = Some (Ref t')" using invD_memo[OF i g, of "Ref t'"] at' by blast
    ultimately show "t = t'" by simp
  qed
qed

lemma deepClone_keeps:
  assumes "deepClone n v h = Inr (r, h')"
  shows "keeps (length h) h h'"
proof -
  from deepClone_Inr[OF assms]
  obtain s' where c: "deepCopy n v \<lparr>heap = h, memo = Map.empty\<rparr> = Inr (r, s')"
    and h': "h' = heap s'"
    by blast
  from framedD[OF deepCopy_framed c] h' show ?thesis by simp
qed

lemma rel_deep_equal:
  assumes "\<And>a t. (a, t) \<in> R \<Longrightarrow>
      a < length h \<and> t < length h \<and> obj_equal False (val_rel R) (h ! a) (h ! t)"
  shows "val_rel R v w \<Longrightarrow> deep_equal False d h v w"
proof (induction d arbitrary: v w)
  case 0
  show ?case by simp
next
  case (Suc d)
  show ?case
  proof (cases v)
    case (Prim p)
    with Suc.prems show ?thesis by (simp add: val_rel_def)
  next
    case (Ref a)
    with Suc.prems obtain t where w: "w = Ref t" and at: "(a, t) \<in> R" by (auto simp: val_rel_def)
    from assms[OF at] have 1: "deref h a = Some (h ! a)" "deref h t = Some (h ! t)"
      and 2: "obj_equal False (val_rel R) (h ! a) (h ! t)"
      by (simp_all add: deref_def)
    from 2 have "obj_equal False (deep_equal False d h) (h ! a) (h ! t)"
      by (rule obj_equal_mono[rotated]) (rule Suc.IH)
    with Ref w 1 show ?thesis by simp
  qed
qed

lemma deepClone_deep_equal:
  assumes wf: "wf_heap h" and ok: "val_ok (length h) v"
    and call: "deepClone n v h = Inr (r, h')"
  shows "deep_equal False d h' v (data r)"
proof (rule deepClone_correspondence[OF assms])
  fix R
  assume rel: "val_rel R v (data r)"
    and range: "\<And>a t. (a, t) \<in> R \<Longrightarrow> a < length h \<and> length h \<le> t \<and> t < length h'"
    and match: "\<And>a t. (a, t) \<in> R \<Longrightarrow> obj_equal False (val_rel R) (h ! a) (h' ! t)"
  have k: "keeps (length h) h h'" using call by (rule deepClone_keeps)
  have "a < length h' \<and> t < length h' \<and> obj_equal False (val_rel R) (h' ! a) (h' ! t)"
    if at: "(a, t) \<in> R" for a t
  proof -
    from range[OF at] have a: "a < length h" and t: "t < length h'" by simp_all
    have "h' ! a = h ! a" using k a by (rule keeps_nth_lt)
    with match[OF at] a t keeps_length[OF k] show ?thesis by simp
  qed
  then show ?thesis using rel by (rule rel_deep_equal)
qed

section \<open>What the WeakMap holds\<close>

lemma memo_keptD:
  "memo_kept rec \<Longrightarrow> rec v s = Inr (r, s') \<Longrightarrow> generic (heap s) x \<Longrightarrow> memo s x = Some c \<Longrightarrow>
   memo s' x = Some c"
  unfolding memo_kept_def by blast

lemma generic_keeps:
  assumes "keeps (length h) h h'" "generic h x"
  shows "generic h' x"
proof -
  from assms(2) obtain b ps where d: "deref h x = Some (OObj b ps)"
    by (auto simp: generic_def split: option.splits obj.splits)
  from keeps_deref[OF assms(1) deref_lt[OF d] d] show ?thesis by (simp add: generic_def)
qed

lemma generic_upd_obj:
  assumes "\<And>b ps. \<exists>ps'. f (OObj b ps) = OObj b ps'" "generic h x"
  shows "generic (upd_obj t f h) x"
proof -
  from assms(2) obtain b ps where d: "deref h x = Some (OObj b ps)"
    by (auto simp: generic_def split: option.splits obj.splits)
  then have x: "x < length h" "h ! x = OObj b ps" by (auto simp: deref_def split: if_splits)
  from assms(1)[of b ps] obtain ps' where "f (OObj b ps) = OObj b ps'" by blast
  with x show ?thesis by (cases "x = t") (simp_all add: generic_def deref_def upd_obj_def)
qed

lemma generic_assign:
  assumes "assign t k v h = Inr h'" "generic h x"
  shows "generic h' x"
proof -
  from assms(1) obtain b ps ps' where t: "deref h t = Some (OObj b ps)" and h': "h' = h[t := OObj b ps']"
    by (auto simp: assign_def split: option.splits obj.splits sum.splits)
  from assms(2) have "x < length h" by (auto simp: generic_def deref_def split: if_splits)
  with assms(2) h' show ?thesis by (cases "x = t") (simp_all add: generic_def deref_def)
qed

lemma forEach_set_memo:
  assumes fr: "framed rec" and mk: "memo_kept rec"
  shows "forEach_set rec t xs s = Inr s' \<Longrightarrow> generic (heap s) x \<Longrightarrow> memo s x = Some c \<Longrightarrow>
     generic (heap s') x \<and> memo s' x = Some c"
proof (induction xs arbitrary: s)
  case Nil
  then show ?case by simp
next
  case (Cons y ys)
  from Cons.prems(1) obtain r s1 where r: "rec y s = Inr (r, s1)"
    and rest: "forEach_set rec t ys (s1\<lparr>heap := upd_obj t (set_add (data r)) (heap s1)\<rparr>) = Inr s'"
    by (auto split: sum.splits)
  have g1: "generic (heap s1) x" using framedD[OF fr r] Cons.prems(2) by (rule generic_keeps)
  have m1: "memo s1 x = Some c" using mk r Cons.prems(2,3) by (rule memo_keptD)
  have "generic (upd_obj t (set_add (data r)) (heap s1)) x"
    using _ g1 by (rule generic_upd_obj) (simp add: set_add_def)
  with Cons.IH[OF rest] m1 show ?case by simp
qed

lemma forEach_map_memo:
  assumes fr: "framed rec" and mk: "memo_kept rec"
  shows "forEach_map rec t kvs s = Inr s' \<Longrightarrow> generic (heap s) x \<Longrightarrow> memo s x = Some c \<Longrightarrow>
     generic (heap s') x \<and> memo s' x = Some c"
proof (induction kvs arbitrary: s)
  case Nil
  then show ?case by simp
next
  case (Cons kv kvs)
  obtain k v where kv: "kv = (k, v)" by (cases kv)
  from Cons.prems(1) kv obtain kr s1 vr s2 where rk: "rec k s = Inr (kr, s1)"
    and rv: "rec v s1 = Inr (vr, s2)"
    and rest: "forEach_map rec t kvs
        (s2\<lparr>heap := upd_obj t (map_set (data kr) (data vr)) (heap s2)\<rparr>) = Inr s'"
    by (auto split: sum.splits)
  have g1: "generic (heap s1) x" using framedD[OF fr rk] Cons.prems(2) by (rule generic_keeps)
  have m1: "memo s1 x = Some c" using mk rk Cons.prems(2,3) by (rule memo_keptD)
  have g2: "generic (heap s2) x" using framedD[OF fr rv] g1 by (rule generic_keeps)
  have m2: "memo s2 x = Some c" using mk rv g1 m1 by (rule memo_keptD)
  have "generic (upd_obj t (map_set (data kr) (data vr)) (heap s2)) x"
    using _ g2 by (rule generic_upd_obj) (simp add: map_set_def)
  with Cons.IH[OF rest] m2 show ?case by simp
qed

lemma forEach_keys_memo:
  assumes fr: "framed rec" and mk: "memo_kept rec"
  shows "forEach_keys rec a t ks s = Inr s' \<Longrightarrow> generic (heap s) x \<Longrightarrow> memo s x = Some c \<Longrightarrow>
     generic (heap s') x \<and> memo s' x = Some c"
proof (induction ks arbitrary: s)
  case Nil
  then show ?case by simp
next
  case (Cons k ks)
  from Cons.prems(1) obtain r s1 h2 where r: "rec (get_prop (heap s) a k) s = Inr (r, s1)"
    and asg: "assign t k (data r) (heap s1) = Inr h2"
    and rest: "forEach_keys rec a t ks (s1\<lparr>heap := h2\<rparr>) = Inr s'"
    by (auto split: sum.splits)
  have g1: "generic (heap s1) x" using framedD[OF fr r] Cons.prems(2) by (rule generic_keeps)
  have m1: "memo s1 x = Some c" using mk r Cons.prems(2,3) by (rule memo_keptD)
  have "generic h2 x" using asg g1 by (rule generic_assign)
  with Cons.IH[OF rest] m1 show ?case by simp
qed

lemma deepCopy_obj_memo_kept:
  assumes fr: "framed rec" and mk: "memo_kept rec"
    and call: "deepCopy_obj rec a ob s = Inr (r, s')"
    and src: "deref (heap s) a = Some ob"
    and g: "generic (heap s) x" and m: "memo s x = Some c"
  shows "memo s' x = Some c"
proof -
  have gx: "\<And>ob'. generic (heap s @ [ob']) x"
    using g by (auto simp: generic_def deref_def nth_append split: if_splits)
  show ?thesis
  proof (cases ob)
    case (ODate tv)
    with call m show ?thesis by (auto simp: deepCopy_obj_def alloc_def)
  next
    case (ORegExp p f li)
    with call m show ?thesis by (auto simp: deepCopy_obj_def alloc_def)
  next
    case (OSet xs)
    let ?s2 = "memo_set a (Ref (length (heap s))) (s\<lparr>heap := heap s @ [OSet []]\<rparr>)"
    from call OSet have loop: "forEach_set rec (length (heap s)) xs ?s2 = Inr s'"
      by (auto simp: deepCopy_obj_def alloc_def split: sum.splits)
    have "x \<noteq> a" using g src OSet by (auto simp: generic_def)
    then have "memo ?s2 x = Some c" using m by (simp add: memo_set_def)
    moreover have "generic (heap ?s2) x" using gx by (simp add: memo_set_def)
    ultimately show ?thesis using forEach_set_memo[OF fr mk loop] by simp
  next
    case (OMap kvs)
    let ?s2 = "memo_set a (Ref (length (heap s))) (s\<lparr>heap := heap s @ [OMap []]\<rparr>)"
    from call OMap have loop: "forEach_map rec (length (heap s)) kvs ?s2 = Inr s'"
      by (auto simp: deepCopy_obj_def alloc_def split: sum.splits)
    have "x \<noteq> a" using g src OMap by (auto simp: generic_def)
    then have "memo ?s2 x = Some c" using m by (simp add: memo_set_def)
    moreover have "generic (heap ?s2) x" using gx by (simp add: memo_set_def)
    ultimately show ?thesis using forEach_map_memo[OF fr mk loop] by simp
  next
    case (OObj b ps)
    show ?thesis
    proof (cases "memo s a")
      case (Some c')
      with call OObj m show ?thesis by (auto simp: deepCopy_obj_def)
    next
      case None
      let ?s2 = "memo_set a (Ref (length (heap s))) (s\<lparr>heap := heap s @ [new_container b]\<rparr>)"
      from call OObj None
      have loop: "forEach_keys rec a (length (heap s)) (map fst ps) ?s2 = Inr s'"
        by (auto simp: deepCopy_obj_def alloc_def split: sum.splits)
      have "x \<noteq> a" using m None by auto
      then have "memo ?s2 x = Some c" using m by (simp add: memo_set_def)
      moreover have "generic (heap ?s2) x" using gx by (simp add: memo_set_def)
      ultimately show ?thesis using forEach_keys_memo[OF fr mk loop] by simp
    qed
  qed
qed

lemma deepCopy_memo_kept: "memo_kept (deepCopy n)"
proof (induction n)
  case 0
  show ?case by (simp add: memo_kept_def)
next
  case (Suc n)
  show ?case unfolding memo_kept_def
  proof (intro allI impI)
    fix v s r s' x c
    assume call: "deepCopy (Suc n) v s = Inr (r, s')" and g: "generic (heap s) x"
      and m: "memo s x = Some c"
    show "memo s' x = Some c"
    proof (cases v)
      case (Prim p)
      with call m show ?thesis by auto
    next
      case (Ref a)
      with call obtain ob where src: "deref (heap s) a = Some ob"
        and c: "deepCopy_obj (deepCopy n) a ob s = Inr (r, s')"
        by (auto split: option.splits)
      from deepCopy_obj_memo_kept[OF deepCopy_framed Suc c src g m] show ?thesis .
    qed
  qed
qed

text \<open>A copied array or object is in the WeakMap afterwards, with its clone.\<close>

lemma deepCopy_generic_memo:
  assumes call: "deepCopy n (Ref a) s = Inr (r, s')" and g: "generic (heap s) a"
  shows "memo s' a = Some (data r)"
proof (cases n)
  case 0
  with call show ?thesis by simp
next
  case (Suc n')
  from g obtain b ps where src: "deref (heap s) a = Some (OObj b ps)"
    by (auto simp: generic_def split: option.splits obj.splits)
  with call Suc have c: "deepCopy_obj (deepCopy n') a (OObj b ps) s = Inr (r, s')" by simp
  show ?thesis
  proof (cases "memo s a")
    case (Some c')
    with c show ?thesis by (auto simp: deepCopy_obj_def)
  next
    case None
    let ?t = "length (heap s)"
    let ?s2 = "memo_set a (Ref ?t) (s\<lparr>heap := heap s @ [new_container b]\<rparr>)"
    from c None have loop: "forEach_keys (deepCopy n') a ?t (map fst ps) ?s2 = Inr s'"
      and d: "data r = Ref ?t"
      by (auto simp: deepCopy_obj_def alloc_def split: sum.splits)
    have "memo ?s2 a = Some (Ref ?t)" by (simp add: memo_set_def)
    moreover have "generic (heap ?s2) a"
      using src by (simp add: memo_set_def generic_def deref_append)
    ultimately show ?thesis
      using forEach_keys_memo[OF deepCopy_framed deepCopy_memo_kept loop] d by simp
  qed
qed

text \<open>A Date, RegExp, Set or Map is copied to a new object at every call.\<close>

lemma deepCopy_not_generic_fresh:
  assumes call: "deepCopy n (Ref a) s = Inr (r, s')" and src: "deref (heap s) a = Some ob"
    and ng: "\<not> generic (heap s) a"
  shows "data r = Ref (length (heap s)) \<and> length (heap s) < length (heap s')"
proof (cases n)
  case 0
  with call show ?thesis by simp
next
  case (Suc n')
  with call src have c: "deepCopy_obj (deepCopy n') a ob s = Inr (r, s')" by simp
  let ?t = "length (heap s)"
  show ?thesis
  proof (cases ob)
    case (ODate tv)
    with c show ?thesis by (auto simp: deepCopy_obj_def alloc_def)
  next
    case (ORegExp p f li)
    with c show ?thesis by (auto simp: deepCopy_obj_def alloc_def upd_obj_def)
  next
    case (OSet xs)
    let ?s2 = "memo_set a (Ref ?t) (s\<lparr>heap := heap s @ [OSet []]\<rparr>)"
    from c OSet have loop: "forEach_set (deepCopy n') ?t xs ?s2 = Inr s'" and d: "data r = Ref ?t"
      by (auto simp: deepCopy_obj_def alloc_def split: sum.splits)
    from forEach_set_keeps[OF deepCopy_framed le_refl loop]
    have "keeps ?t (heap ?s2) (heap s')" by (simp add: memo_set_def)
    then have "length (heap ?s2) \<le> length (heap s')" by (simp add: keeps_def)
    with d show ?thesis by (simp add: memo_set_def)
  next
    case (OMap kvs)
    let ?s2 = "memo_set a (Ref ?t) (s\<lparr>heap := heap s @ [OMap []]\<rparr>)"
    from c OMap have loop: "forEach_map (deepCopy n') ?t kvs ?s2 = Inr s'" and d: "data r = Ref ?t"
      by (auto simp: deepCopy_obj_def alloc_def split: sum.splits)
    from forEach_map_keeps[OF deepCopy_framed le_refl loop]
    have "keeps ?t (heap ?s2) (heap s')" by (simp add: memo_set_def)
    then have "length (heap ?s2) \<le> length (heap s')" by (simp add: keeps_def)
    with d show ?thesis by (simp add: memo_set_def)
  next
    case (OObj b ps)
    with src ng show ?thesis by (simp add: generic_def)
  qed
qed

section \<open>The clone holds no reference into the source\<close>

lemma fresh_closed_nth:
  "fresh_closed L h = (\<forall>t. L \<le> t \<and> t < length h \<longrightarrow> fresh_obj L (h ! t))"
proof
  assume c: "fresh_closed L h"
  show "\<forall>t. L \<le> t \<and> t < length h \<longrightarrow> fresh_obj L (h ! t)"
  proof (intro allI impI)
    fix t assume t: "L \<le> t \<and> t < length h"
    then have "t - L < length (drop L h)" "drop L h ! (t - L) = h ! t" by auto
    with c show "fresh_obj L (h ! t)" unfolding fresh_closed_def list_all_length by metis
  qed
next
  assume a: "\<forall>t. L \<le> t \<and> t < length h \<longrightarrow> fresh_obj L (h ! t)"
  show "fresh_closed L h" unfolding fresh_closed_def list_all_length
  proof (intro allI impI)
    fix i assume "i < length (drop L h)"
    then have "L \<le> L + i \<and> L + i < length h" "drop L h ! i = h ! (L + i)" by auto
    with a show "fresh_obj L (drop L h ! i)" by metis
  qed
qed

lemma fresh_closed_append:
  "fresh_closed L h \<Longrightarrow> fresh_obj L ob \<Longrightarrow> L \<le> length h \<Longrightarrow> fresh_closed L (h @ [ob])"
  by (simp add: fresh_closed_def)

lemma fresh_closed_update:
  assumes "fresh_closed L h" "fresh_obj L ob"
  shows "fresh_closed L (h[t := ob])"
  unfolding fresh_closed_nth
proof (intro allI impI)
  fix x assume x: "L \<le> x \<and> x < length (h[t := ob])"
  show "fresh_obj L (h[t := ob] ! x)"
  proof (cases "x = t")
    case True
    with x assms(2) show ?thesis by simp
  next
    case False
    with x assms(1) show ?thesis by (simp add: fresh_closed_nth)
  qed
qed

lemma fresh_closed_upd_obj:
  assumes "fresh_closed L h" "\<And>ob. fresh_obj L ob \<Longrightarrow> fresh_obj L (f ob)" "L \<le> t"
  shows "fresh_closed L (upd_obj t f h)"
proof (cases "t < length h")
  case True
  with assms(1,3) have "fresh_obj L (h ! t)" by (simp add: fresh_closed_nth)
  then have "fresh_obj L (f (h ! t))" by (rule assms(2))
  with assms(1) True show ?thesis by (simp add: upd_obj_def fresh_closed_update)
next
  case False
  with assms(1) show ?thesis by (simp add: upd_obj_def)
qed

lemma fresh_set_add: "fresh_val L v \<Longrightarrow> fresh_obj L ob \<Longrightarrow> fresh_obj L (set_add v ob)"
  by (cases ob) (simp_all add: set_add_def fresh_obj_def)

lemma fresh_upd_entry:
  "fresh_val L k \<Longrightarrow> fresh_val L v \<Longrightarrow> list_all (fresh_val L) (map fst kvs) \<Longrightarrow>
   list_all (fresh_val L) (map snd kvs) \<Longrightarrow>
   list_all (fresh_val L) (map fst (upd_entry k v kvs)) \<and>
   list_all (fresh_val L) (map snd (upd_entry k v kvs))"
  by (induction kvs) auto

lemma fresh_map_set:
  "fresh_val L k \<Longrightarrow> fresh_val L v \<Longrightarrow> fresh_obj L ob \<Longrightarrow> fresh_obj L (map_set k v ob)"
  using fresh_upd_entry[of L k v]
  by (cases ob) (simp_all add: map_set_def fresh_obj_def)

lemma fresh_upd_prop:
  "fresh_val L v \<Longrightarrow> list_all (fresh_val L) (map (fst \<circ> snd) ps) \<Longrightarrow>
   list_all (fresh_val L) (map (fst \<circ> snd) (upd_prop k v ps))"
  by (induction ps) auto

lemma fresh_ins_prop:
  "fresh_val L v \<Longrightarrow> list_all (fresh_val L) (map (fst \<circ> snd) ps) \<Longrightarrow>
   list_all (fresh_val L) (map (fst \<circ> snd) (ins_prop k v ps))"
  by (induction ps) auto

lemma fresh_put_prop:
  "fresh_val L v \<Longrightarrow> list_all (fresh_val L) (map (fst \<circ> snd) ps) \<Longrightarrow>
   list_all (fresh_val L) (map (fst \<circ> snd) (put_prop k v ps))"
  by (simp add: put_prop_def fresh_upd_prop fresh_ins_prop)

lemma fresh_filter:
  "list_all (fresh_val L) (map (fst \<circ> snd) ps) \<Longrightarrow>
   list_all (fresh_val L) (map (fst \<circ> snd) (filter Q ps))"
  by (induction ps) auto

lemma fresh_Prim: "fresh_val L (Prim p)"
  by (simp add: fresh_val_def)

lemma fresh_assign_props:
  assumes "assign_props b k v ps = Inr ps'" "fresh_val L v"
    "list_all (fresh_val L) (map (fst \<circ> snd) ps)"
  shows "list_all (fresh_val L) (map (fst \<circ> snd) ps')"
proof (cases "k = KStr ''__proto__'' \<or> (b \<and> k = KSym Unscopables)")
  case True
  with assms(1,3) show ?thesis by (auto simp: assign_props_def)
next
  case False
  then have np: "k \<noteq> KStr ''__proto__''" "\<not> (b \<and> k = KSym Unscopables)" by simp_all
  note f = fresh_put_prop[OF assms(2,3)]
  show ?thesis
  proof (cases b)
    case False
    with assms(1) f show ?thesis using np by (auto simp: assign_props_own)
  next
    case True
    show ?thesis
    proof (cases k)
      case (KIdx i)
      with True assms(1) have "ps' = (if array_len ps \<le> int i
          then upd_prop (KStr ''length'') (Prim (Num (int i + 1))) (put_prop k v ps)
          else put_prop k v ps)"
        using np by (auto simp: assign_props_own)
      with f show ?thesis by (simp add: fresh_upd_prop fresh_Prim)
    next
      case (KStr x)
      show ?thesis
      proof (cases "x = ''length''")
        case False
        with True KStr assms(1) f show ?thesis using np by (auto simp: assign_props_own)
      next
        case l: True
        with True KStr assms(1) obtain m where "ps' = upd_prop k v (filter (below_len m) ps)"
          using np by (auto simp: assign_props_own split: val.splits prim.splits if_splits)
        with assms(2,3) show ?thesis by (simp add: fresh_upd_prop fresh_filter)
      qed
    next
      case (KSym x)
      with True assms(1) f show ?thesis using np by (auto simp: assign_props_own)
    qed
  qed
qed

lemma fresh_assign:
  assumes "assign t k v h = Inr h'" "fresh_val L v" "fresh_closed L h"
  shows "fresh_closed L h'"
proof -
  from assms(1) obtain b ps ps' where t: "deref h t = Some (OObj b ps)"
    and ap: "assign_props b k v ps = Inr ps'" and h': "h' = h[t := OObj b ps']"
    by (auto simp: assign_def split: option.splits obj.splits sum.splits)
  show ?thesis
  proof (cases "L \<le> t")
    case True
    from t have tl: "t < length h" and ht: "h ! t = OObj b ps"
      by (auto simp: deref_def split: if_splits)
    from assms(3) True tl have "fresh_obj L (h ! t)" unfolding fresh_closed_nth by blast
    with ht have "fresh_obj L (OObj b ps)" by simp
    then have "fresh_obj L (OObj b ps')"
      using fresh_assign_props[OF ap assms(2)] by (simp add: fresh_obj_def)
    with assms(3) h' show ?thesis by (simp add: fresh_closed_update)
  next
    case False
    then have "drop L h' = drop L h" unfolding h' by simp
    with assms(3) show ?thesis by (simp add: fresh_closed_def)
  qed
qed

lemma fresh_goodD:
  "fresh_good L rec \<Longrightarrow> rec v s = Inr (r, s') \<Longrightarrow> fresh_inv L s \<Longrightarrow>
   fresh_inv L s' \<and> fresh_val L (data r)"
  unfolding fresh_good_def by blast

lemma fresh_inv_heap:
  "fresh_inv L s \<Longrightarrow> fresh_closed L h2 \<Longrightarrow> length (heap s) \<le> length h2 \<Longrightarrow>
   fresh_inv L (s\<lparr>heap := h2\<rparr>)"
  by (simp add: fresh_inv_def)

lemma forEach_set_fresh:
  assumes fg: "fresh_good L rec" and t: "L \<le> t"
  shows "forEach_set rec t xs s = Inr s' \<Longrightarrow> fresh_inv L s \<Longrightarrow> fresh_inv L s'"
proof (induction xs arbitrary: s)
  case Nil
  then show ?case by simp
next
  case (Cons x xs)
  from Cons.prems(1) obtain r s1 where r: "rec x s = Inr (r, s1)"
    and rest: "forEach_set rec t xs (s1\<lparr>heap := upd_obj t (set_add (data r)) (heap s1)\<rparr>) = Inr s'"
    by (auto split: sum.splits)
  from fresh_goodD[OF fg r Cons.prems(2)] have i1: "fresh_inv L s1" and fv: "fresh_val L (data r)"
    by simp_all
  have "fresh_closed L (upd_obj t (set_add (data r)) (heap s1))"
    using _ _ t
  proof (rule fresh_closed_upd_obj)
    show "fresh_closed L (heap s1)" using i1 by (simp add: fresh_inv_def)
    show "\<And>ob. fresh_obj L ob \<Longrightarrow> fresh_obj L (set_add (data r) ob)" using fv by (rule fresh_set_add)
  qed
  then have "fresh_inv L (s1\<lparr>heap := upd_obj t (set_add (data r)) (heap s1)\<rparr>)"
    using i1 by (intro fresh_inv_heap) (simp_all add: upd_obj_def)
  with Cons.IH[OF rest] show ?case by simp
qed

lemma forEach_map_fresh:
  assumes fg: "fresh_good L rec" and t: "L \<le> t"
  shows "forEach_map rec t kvs s = Inr s' \<Longrightarrow> fresh_inv L s \<Longrightarrow> fresh_inv L s'"
proof (induction kvs arbitrary: s)
  case Nil
  then show ?case by simp
next
  case (Cons kv kvs)
  obtain k v where kv: "kv = (k, v)" by (cases kv)
  from Cons.prems(1) kv obtain kr s1 vr s2 where rk: "rec k s = Inr (kr, s1)"
    and rv: "rec v s1 = Inr (vr, s2)"
    and rest: "forEach_map rec t kvs
        (s2\<lparr>heap := upd_obj t (map_set (data kr) (data vr)) (heap s2)\<rparr>) = Inr s'"
    by (auto split: sum.splits)
  from fresh_goodD[OF fg rk Cons.prems(2)] have i1: "fresh_inv L s1" and fk: "fresh_val L (data kr)"
    by simp_all
  from fresh_goodD[OF fg rv i1] have i2: "fresh_inv L s2" and fv: "fresh_val L (data vr)"
    by simp_all
  have "fresh_closed L (upd_obj t (map_set (data kr) (data vr)) (heap s2))"
    using _ _ t
  proof (rule fresh_closed_upd_obj)
    show "fresh_closed L (heap s2)" using i2 by (simp add: fresh_inv_def)
    show "\<And>ob. fresh_obj L ob \<Longrightarrow> fresh_obj L (map_set (data kr) (data vr) ob)"
      using fk fv by (rule fresh_map_set)
  qed
  then have "fresh_inv L (s2\<lparr>heap := upd_obj t (map_set (data kr) (data vr)) (heap s2)\<rparr>)"
    using i2 by (intro fresh_inv_heap) (simp_all add: upd_obj_def)
  with Cons.IH[OF rest] show ?case by simp
qed

lemma forEach_keys_fresh:
  assumes fg: "fresh_good L rec"
  shows "forEach_keys rec a t ks s = Inr s' \<Longrightarrow> fresh_inv L s \<Longrightarrow> fresh_inv L s'"
proof (induction ks arbitrary: s)
  case Nil
  then show ?case by simp
next
  case (Cons k ks)
  from Cons.prems(1) obtain r s1 h2 where r: "rec (get_prop (heap s) a k) s = Inr (r, s1)"
    and asg: "assign t k (data r) (heap s1) = Inr h2"
    and rest: "forEach_keys rec a t ks (s1\<lparr>heap := h2\<rparr>) = Inr s'"
    by (auto split: sum.splits)
  from fresh_goodD[OF fg r Cons.prems(2)] have i1: "fresh_inv L s1" and fv: "fresh_val L (data r)"
    by simp_all
  have "fresh_closed L h2" using asg fv by (rule fresh_assign) (use i1 in \<open>simp add: fresh_inv_def\<close>)
  moreover have "length (heap s1) \<le> length h2"
    using asg by (auto simp: assign_def split: option.splits obj.splits sum.splits)
  ultimately have "fresh_inv L (s1\<lparr>heap := h2\<rparr>)" using i1 by (intro fresh_inv_heap)
  with Cons.IH[OF rest] show ?case by simp
qed

lemma fresh_inv_begin:
  assumes "fresh_inv L s" "fresh_obj L ob"
  shows "fresh_inv L (memo_set a (Ref (length (heap s))) (s\<lparr>heap := heap s @ [ob]\<rparr>))"
  using assms by (simp add: fresh_inv_def memo_set_def fresh_closed_append fresh_val_def)

lemma deepCopy_obj_fresh:
  assumes fg: "fresh_good L rec" and call: "deepCopy_obj rec a ob s = Inr (r, s')"
    and i: "fresh_inv L s"
  shows "fresh_inv L s' \<and> fresh_val L (data r)"
proof -
  let ?t = "length (heap s)"
  have Lt: "L \<le> ?t" using i by (simp add: fresh_inv_def)
  have ft: "fresh_val L (Ref ?t)" using Lt by (simp add: fresh_val_def)
  show ?thesis
  proof (cases ob)
    case (ODate tv)
    with call have "s' = s\<lparr>heap := heap s @ [ODate tv]\<rparr>" "data r = Ref ?t"
      by (auto simp: deepCopy_obj_def alloc_def)
    with i ft show ?thesis by (simp add: fresh_inv_def fresh_closed_append fresh_obj_def)
  next
    case (ORegExp p f li)
    with call have "s' = s\<lparr>heap := heap s @ [ORegExp p f li]\<rparr>" "data r = Ref ?t"
      by (auto simp: deepCopy_obj_def alloc_def upd_obj_def set_lastIndex_def)
    with i ft show ?thesis by (simp add: fresh_inv_def fresh_closed_append fresh_obj_def)
  next
    case (OSet xs)
    let ?s2 = "memo_set a (Ref ?t) (s\<lparr>heap := heap s @ [OSet []]\<rparr>)"
    from call OSet have loop: "forEach_set rec ?t xs ?s2 = Inr s'" and d: "data r = Ref ?t"
      by (auto simp: deepCopy_obj_def alloc_def split: sum.splits)
    have "fresh_inv L ?s2" using i by (rule fresh_inv_begin) (simp add: fresh_obj_def)
    with forEach_set_fresh[OF fg Lt loop] d ft show ?thesis by simp
  next
    case (OMap kvs)
    let ?s2 = "memo_set a (Ref ?t) (s\<lparr>heap := heap s @ [OMap []]\<rparr>)"
    from call OMap have loop: "forEach_map rec ?t kvs ?s2 = Inr s'" and d: "data r = Ref ?t"
      by (auto simp: deepCopy_obj_def alloc_def split: sum.splits)
    have "fresh_inv L ?s2" using i by (rule fresh_inv_begin) (simp add: fresh_obj_def)
    with forEach_map_fresh[OF fg Lt loop] d ft show ?thesis by simp
  next
    case (OObj b ps)
    show ?thesis
    proof (cases "memo s a")
      case (Some c)
      with call OObj have "s' = s" "data r = c" by (auto simp: deepCopy_obj_def)
      with i Some show ?thesis by (auto simp: fresh_inv_def)
    next
      case None
      let ?s2 = "memo_set a (Ref ?t) (s\<lparr>heap := heap s @ [new_container b]\<rparr>)"
      from call OObj None have loop: "forEach_keys rec a ?t (map fst ps) ?s2 = Inr s'"
        and d: "data r = Ref ?t"
        by (auto simp: deepCopy_obj_def alloc_def split: sum.splits)
      have "fresh_inv L ?s2" using i
        by (rule fresh_inv_begin) (simp add: fresh_obj_def new_container_def fresh_val_def)
      with forEach_keys_fresh[OF fg loop] d ft show ?thesis by simp
    qed
  qed
qed

lemma deepCopy_fresh_good: "fresh_good L (deepCopy n)"
proof (induction n)
  case 0
  show ?case by (simp add: fresh_good_def)
next
  case (Suc n)
  show ?case unfolding fresh_good_def
  proof (intro allI impI)
    fix v s r s'
    assume call: "deepCopy (Suc n) v s = Inr (r, s')" and i: "fresh_inv L s"
    show "fresh_inv L s' \<and> fresh_val L (data r)"
    proof (cases v)
      case (Prim p)
      with call i show ?thesis by (auto simp: fresh_val_def)
    next
      case (Ref a)
      with call obtain ob where "deepCopy_obj (deepCopy n) a ob s = Inr (r, s')"
        by (auto split: option.splits)
      with Suc show ?thesis using i by (rule deepCopy_obj_fresh)
    qed
  qed
qed

lemma deepClone_fresh:
  assumes "deepClone n v h = Inr (r, h')"
  shows "fresh_closed (length h) h' \<and> fresh_val (length h) (data r)"
proof -
  from deepClone_Inr[OF assms]
  obtain s' where c: "deepCopy n v \<lparr>heap = h, memo = Map.empty\<rparr> = Inr (r, s')"
    and h': "h' = heap s'"
    by blast
  have "fresh_inv (length h) \<lparr>heap = h, memo = Map.empty\<rparr>"
    by (simp add: fresh_inv_def fresh_closed_def)
  from fresh_goodD[OF deepCopy_fresh_good c this] h' show ?thesis by (simp add: fresh_inv_def)
qed

text \<open>The attributes of the keys of a new container.\<close>

lemma enum_upd_prop: "list_all (enum_ok b) ps \<Longrightarrow> list_all (enum_ok b) (upd_prop k v ps)"
  by (induction ps) auto

lemma enum_ins_prop:
  "\<not> (b \<and> k = KStr ''length'') \<Longrightarrow> list_all (enum_ok b) ps \<Longrightarrow> list_all (enum_ok b) (ins_prop k v ps)"
  by (induction ps) auto

lemma enum_assign_props:
  assumes "assign_props b k v ps = Inr ps'" "list_all (enum_ok b) ps"
  shows "list_all (enum_ok b) ps'"
proof (cases "k = KStr ''__proto__'' \<or> (b \<and> k = KSym Unscopables)")
  case True
  with assms show ?thesis by (auto simp: assign_props_def)
next
  case npu: False
  then have np: "k \<noteq> KStr ''__proto__''" "\<not> (b \<and> k = KSym Unscopables)" by simp_all
  show ?thesis
  proof (cases "b \<and> k = KStr ''length''")
  case True
  with assms(1) obtain m where "ps' = upd_prop k v (filter (below_len m) ps)"
    using np by (auto simp: assign_props_own split: val.splits prim.splits if_splits)
  moreover have "list_all (enum_ok b) (filter (below_len m) ps)" for m
    using assms(2) by (induction ps) auto
  ultimately show ?thesis by (simp add: enum_upd_prop)
next
  case False
  then have put: "list_all (enum_ok b) (put_prop k v ps)"
    using assms(2) by (simp add: put_prop_def enum_upd_prop enum_ins_prop)
  show ?thesis
  proof (cases b)
    case nb: False
    with assms(1) put show ?thesis using np by (auto simp: assign_props_own)
  next
    case True
    with False have nl: "k \<noteq> KStr ''length''" by simp
    show ?thesis
    proof (cases k)
      case (KIdx i)
      with True assms(1) have "ps' = (if array_len ps \<le> int i
          then upd_prop (KStr ''length'') (Prim (Num (int i + 1))) (put_prop k v ps)
          else put_prop k v ps)"
        using np by (auto simp: assign_props_own)
      with put show ?thesis by (simp add: enum_upd_prop)
    next
      case (KStr x)
      with True nl assms(1) put show ?thesis using np by (auto simp: assign_props_own)
    next
      case (KSym x)
      with True assms(1) put show ?thesis using np by (auto simp: assign_props_own)
    qed
  qed
qed
qed

lemma forEach_keys_enum:
  assumes fr: "framed rec"
  shows "forEach_keys rec a t ks s = Inr s' \<Longrightarrow> t < length (heap s) \<Longrightarrow>
     heap s ! t = OObj b tps \<Longrightarrow> list_all (enum_ok b) tps \<Longrightarrow>
     \<exists>tps'. deref (heap s') t = Some (OObj b tps') \<and> list_all (enum_ok b) tps'"
proof (induction ks arbitrary: s tps)
  case Nil
  then show ?case by (simp add: deref_def)
next
  case (Cons k ks)
  from Cons.prems(1) obtain r s1 h2 where r: "rec (get_prop (heap s) a k) s = Inr (r, s1)"
    and asg: "assign t k (data r) (heap s1) = Inr h2"
    and rest: "forEach_keys rec a t ks (s1\<lparr>heap := h2\<rparr>) = Inr s'"
    by (auto split: sum.splits)
  have k1: "keeps (length (heap s)) (heap s) (heap s1)" using fr r by (rule framedD)
  have t1: "t < length (heap s1)" using Cons.prems(2) keeps_length[OF k1] by simp
  have ht: "heap s1 ! t = OObj b tps" using keeps_nth_lt[OF k1 Cons.prems(2)] Cons.prems(3) by simp
  from asg t1 ht obtain tps2 where ap: "assign_props b k (data r) tps = Inr tps2"
    and h2: "h2 = (heap s1)[t := OObj b tps2]"
    by (auto simp: assign_def deref_def split: sum.splits)
  have e2: "list_all (enum_ok b) tps2" using ap Cons.prems(4) by (rule enum_assign_props)
  show ?case
  proof (rule Cons.IH[OF rest _ _ e2])
    show "t < length (heap (s1\<lparr>heap := h2\<rparr>))" using t1 by (simp add: h2)
    show "heap (s1\<lparr>heap := h2\<rparr>) ! t = OObj b tps2" using t1 by (simp add: h2)
  qed
qed

lemma deepClone_generic_container:
  assumes src: "deref h a = Some (OObj b ps)" and call: "deepClone n (Ref a) h = Inr (r, h')"
  shows "data r = Ref (length h) \<and>
     (\<exists>qs. deref h' (length h) = Some (OObj b qs) \<and> list_all (enum_ok b) qs)"
proof -
  from deepClone_Inr[OF call]
  obtain s' where c: "deepCopy n (Ref a) \<lparr>heap = h, memo = Map.empty\<rparr> = Inr (r, s')"
    and h': "h' = heap s'"
    by blast
  let ?s2 = "memo_set a (Ref (length h)) \<lparr>heap = h @ [new_container b], memo = Map.empty\<rparr>"
  obtain n' where n: "n = Suc n'" using c by (cases n) auto
  from c src n have loop: "forEach_keys (deepCopy n') a (length h) (map fst ps) ?s2 = Inr s'"
    and d: "data r = Ref (length h)"
    by (auto simp: deepCopy_obj_def alloc_def split: sum.splits)
  have "\<exists>tps'. deref (heap s') (length h) = Some (OObj b tps') \<and> list_all (enum_ok b) tps'"
  proof (rule forEach_keys_enum[OF deepCopy_framed loop])
    show "length h < length (heap ?s2)" by (simp add: memo_set_def)
    show "heap ?s2 ! length h = OObj b (if b then [(KStr ''length'', Prim (Num 0), False)] else [])"
      by (simp add: memo_set_def new_container_def)
    show "list_all (enum_ok b) (if b then [(KStr ''length'', Prim (Num 0), False)] else [])"
      by simp
  qed
  with d h' show ?thesis by simp
qed

section \<open>Consequences for one call of deepClone\<close>

lemma obj_equal_OObjD:
  assumes "obj_equal attrs eq (OObj b ps) y"
  obtains qs where "y = OObj b qs" "set (map fst ps) = set (map fst qs)"
    "\<And>k. k \<in> fst ` set ps \<Longrightarrow> eq (prop_val ps k) (prop_val qs k)"
proof (cases y)
  case (OObj b' qs)
  with assms have 1: "b = b'" "set (map fst ps) = set (map fst qs)"
    and 2: "list_all (\<lambda>k. eq (prop_val ps k) (prop_val qs k) \<and>
                     (attrs \<longrightarrow> prop_enum ps k = prop_enum qs k)) (map fst ps)"
    by simp_all
  have "eq (prop_val ps k) (prop_val qs k)" if "k \<in> fst ` set ps" for k
  proof -
    from that have "k \<in> set (map fst ps)" by simp
    with 2 show ?thesis unfolding list_all_iff by blast
  qed
  with 1 OObj show ?thesis by (intro that[of qs]) simp_all
qed (use assms in simp_all)

lemma val_rel_RefD: "val_rel R (Ref a) w \<Longrightarrow> \<exists>t. w = Ref t \<and> (a, t) \<in> R"
  by (simp add: val_rel_def)

lemma deep_equal_keys:
  assumes "deep_equal attrs (Suc d) h (Ref a) (Ref t)" "deref h a = Some (OObj b ps)"
    "deref h t = Some (OObj b' qs)"
  shows "set (map fst qs) = set (map fst ps)"
  using assms by simp

text \<open>
  The clone of an array or object of a well-formed heap: the fields of the new container
  are related to those of the source by a relation that gives every array and object one
  clone only, and that leads from old objects to new ones.
\<close>

lemma deepClone_generic_fields:
  assumes wf: "wf_heap h" and root: "deref h a = Some (OObj b ps)"
    and call: "deepClone n (Ref a) h = Inr (r, h')"
  obtains R t where "data r = Ref t" "(a, t) \<in> R"
    and "\<And>k. k \<in> fst ` set ps \<Longrightarrow> val_rel R (prop_val ps k) (get_prop h' t k)"
    and "\<And>x c c'. (x, c) \<in> R \<Longrightarrow> (x, c') \<in> R \<Longrightarrow> generic h x \<Longrightarrow> c = c'"
    and "\<And>x c. (x, c) \<in> R \<Longrightarrow> length h \<le> c"
proof -
  have ok: "val_ok (length h) (Ref a)" using deref_lt[OF root] by (simp add: val_ok_def)
  show ?thesis
  proof (rule deepClone_correspondence[OF wf ok call])
    fix R
    assume rel: "val_rel R (Ref a) (data r)"
      and range: "\<And>a t. (a, t) \<in> R \<Longrightarrow> a < length h \<and> length h \<le> t \<and> t < length h'"
      and match: "\<And>a t. (a, t) \<in> R \<Longrightarrow> obj_equal False (val_rel R) (h ! a) (h' ! t)"
      and func: "\<And>a t t'. (a, t) \<in> R \<Longrightarrow> (a, t') \<in> R \<Longrightarrow> generic h a \<Longrightarrow> t = t'"
    from val_rel_RefD[OF rel] obtain t where d: "data r = Ref t" and at: "(a, t) \<in> R" by blast
    from match[OF at] deref_nth[OF root]
    have "obj_equal False (val_rel R) (OObj b ps) (h' ! t)" by simp
    then obtain qs where qs: "h' ! t = OObj b qs"
      and vals: "\<And>k. k \<in> fst ` set ps \<Longrightarrow> val_rel R (prop_val ps k) (prop_val qs k)"
      by (rule obj_equal_OObjD) blast
    from range[OF at] qs have gp: "get_prop h' t k = prop_val qs k" for k
      by (simp add: get_prop_def deref_def)
    show ?thesis
    proof (rule that[OF d at])
      show "\<And>k. k \<in> fst ` set ps \<Longrightarrow> val_rel R (prop_val ps k) (get_prop h' t k)"
        using vals gp by simp
      show "\<And>x c c'. (x, c) \<in> R \<Longrightarrow> (x, c') \<in> R \<Longrightarrow> generic h x \<Longrightarrow> c = c'" by (rule func)
      show "\<And>x c. (x, c) \<in> R \<Longrightarrow> length h \<le> c" using range by blast
    qed
  qed
qed

text \<open>
  A field of an array or object that refers to the object itself refers, in the clone, to
  the clone itself, whatever the other fields are, whenever the call returns.
\<close>

lemma deepClone_self_field:
  assumes wf: "wf_heap h" and root: "deref h a = Some (OObj b ps)"
    and k: "k \<in> fst ` set ps" "prop_val ps k = Ref a"
    and call: "deepClone n (Ref a) h = Inr (r, h')"
  shows "\<exists>t. data r = Ref t \<and> length h \<le> t \<and> get_prop h' t k = Ref t"
proof (rule deepClone_generic_fields[OF wf root call])
  fix R t
  assume d: "data r = Ref t" and at: "(a, t) \<in> R"
    and vals: "\<And>k. k \<in> fst ` set ps \<Longrightarrow> val_rel R (prop_val ps k) (get_prop h' t k)"
    and func: "\<And>x c c'. (x, c) \<in> R \<Longrightarrow> (x, c') \<in> R \<Longrightarrow> generic h x \<Longrightarrow> c = c'"
    and new: "\<And>x c. (x, c) \<in> R \<Longrightarrow> length h \<le> c"
  from vals[OF k(1)] k(2) have "val_rel R (Ref a) (get_prop h' t k)" by simp
  from val_rel_RefD[OF this] obtain c where c: "get_prop h' t k = Ref c" "(a, c) \<in> R" by blast
  have "generic h a" using root by (simp add: generic_def)
  from func[OF c(2) at this] have "c = t" .
  with d c new[OF at] show ?thesis by simp
qed

text \<open>\<open>shallowCopy\<close> leaves every object of the heap as it was.\<close>

lemma shallow_loop_keeps:
  "shallow_loop a t ks h = Inr h' \<Longrightarrow> L \<le> t \<Longrightarrow> keeps L h h'"
proof (induction ks arbitrary: h)
  case Nil
  then show ?case by (simp add: keeps_refl)
next
  case (Cons k ks)
  from Cons.prems(1) obtain h1 where a: "assign t k (get_prop h a k) h = Inr h1"
    and rest: "shallow_loop a t ks h1 = Inr h'"
    by (auto split: sum.splits)
  from keeps_assign[OF a Cons.prems(2)] Cons.IH[OF rest Cons.prems(2)] show ?case
    by (rule keeps_trans)
qed

lemma shallowCopy_keeps:
  assumes "shallowCopy v h = Inr (r, h')"
  shows "keeps (length h) h h'"
proof (cases v)
  case (Prim p)
  with assms show ?thesis by (simp add: shallowCopy_def keeps_refl)
next
  case (Ref a)
  with assms obtain ob where "shallow_loop a (length h) (for_in_keys ob) (h @ [new_container (is_array ob)]) = Inr h'"
    by (auto simp: shallowCopy_def Let_def split: option.splits sum.splits)
  from shallow_loop_keeps[OF this le_refl] keeps_append[OF le_refl, of h]
  show ?thesis by (blast intro: keeps_trans)
qed

text \<open>
  The clone of a Set of a well-formed heap, whenever the call returns: a new Set with as
  many elements, each structurally equal to the element of the source at the same place
  of the iteration order.
\<close>

lemma deepClone_set_elements:
  assumes wf: "wf_heap h" and src: "deref h a = Some (OSet xs)"
    and call: "deepClone n (Ref a) h = Inr (r, h')"
  shows "data r = Ref (length h) \<and>
     (\<exists>ys. deref h' (length h) = Some (OSet ys) \<and> length ys = length xs \<and>
        (\<forall>d. list_all2 (deep_equal False d h') xs ys))"
proof -
  have ok: "val_ok (length h) (Ref a)" using deref_lt[OF src] by (simp add: val_ok_def)
  have k: "keeps (length h) h h'" using call by (rule deepClone_keeps)
  have src': "deref h' a = Some (OSet xs)" using k deref_lt[OF src] src by (rule keeps_deref)
  from deepClone_Inr[OF call]
  obtain s' where c: "deepCopy n (Ref a) \<lparr>heap = h, memo = Map.empty\<rparr> = Inr (r, s')"
    and h': "h' = heap s'"
    by blast
  have "\<not> generic (heap \<lparr>heap = h, memo = Map.empty\<rparr>) a" using src by (simp add: generic_def)
  from deepCopy_not_generic_fresh[OF c _ this] src h'
  have d: "data r = Ref (length h)" and lt: "length h < length h'" by simp_all
  have de: "deep_equal False (Suc e) h' (Ref a) (Ref (length h))" for e
    using deepClone_deep_equal[OF wf ok call, of "Suc e"] d by simp
  from de[of 0] src' lt obtain ys where ys: "deref h' (length h) = Some (OSet ys)"
    by (cases "h' ! length h") (simp_all add: deref_def)
  have all: "list_all2 (deep_equal False e h') xs ys" for e
    using de[of e] src' ys by simp
  have "length ys = length xs" using list_all2_lengthD[OF all[of 0]] by simp
  with d ys all show ?thesis by blast
qed

text \<open>
  Why the well-formed heaps leave out the own property \<open>__proto__\<close>: for
  \<open>src = JSON.parse('{"__proto__": 1}')\<close> the clone has no own property at all.
\<close>

lemma deepClone_own_proto_key:
  "deepClone 2 (Ref 0) [OObj False [(KStr ''__proto__'', Prim (Num 1), True)]]
     = Inr (\<lparr>status = True, msg = MsgObject, data = Ref 1\<rparr>,
            [OObj False [(KStr ''__proto__'', Prim (Num 1), True)], OObj False []])"
  by (simp add: deepClone_def deref_def deepCopy_obj_def alloc_def memo_set_def new_container_def
        get_prop_def prop_val_def assign_def assign_props_def eval_nat_numeral)

section \<open>When a call returns\<close>

lemma memo_growsD: "memo_grows rec \<Longrightarrow> rec v s = Inr (r, s') \<Longrightarrow> memo s a \<noteq> None \<Longrightarrow> memo s' a \<noteq> None"
  unfolding memo_grows_def by blast

lemma prim_idD: "prim_id rec \<Longrightarrow> rec (Prim p) s = Inr (r, s') \<Longrightarrow> data r = Prim p"
  unfolding prim_id_def by blast

lemma returns_onD:
  "returns_on h0 rk K n rec \<Longrightarrow> keeps (length h0) h0 (heap s) \<Longrightarrow> val_ok (length h0) v \<Longrightarrow>
   need h0 rk K s v \<le> n \<Longrightarrow> \<exists>r s'. rec v s = Inr (r, s')"
  unfolding returns_on_def by blast

lemma finite_uncopied: "finite (uncopied h0 s)"
proof (rule finite_subset)
  show "uncopied h0 s \<subseteq> {..<length h0}" by (auto simp: uncopied_def)
qed simp

lemma uncopied_mono:
  assumes "\<And>a. memo s a \<noteq> None \<Longrightarrow> memo s' a \<noteq> None"
  shows "card (uncopied h0 s') \<le> card (uncopied h0 s)"
proof (rule card_mono[OF finite_uncopied])
  show "uncopied h0 s' \<subseteq> uncopied h0 s"
  proof
    fix a assume a: "a \<in> uncopied h0 s'"
    then have "memo s a = None" using assms[of a] by (cases "memo s a") (auto simp: uncopied_def)
    with a show "a \<in> uncopied h0 s" by (simp add: uncopied_def)
  qed
qed

lemma need_mono:
  assumes "\<And>a. memo s a \<noteq> None \<Longrightarrow> memo s' a \<noteq> None"
  shows "need h0 rk K s' v \<le> need h0 rk K s v"
proof -
  have "card (uncopied h0 s') \<le> card (uncopied h0 s)" using assms by (rule uncopied_mono)
  then have "card (uncopied h0 s') * (K + 2) \<le> card (uncopied h0 s) * (K + 2)"
    by (rule mult_le_mono1)
  then show ?thesis by (simp add: need_def)
qed

lemma uncopied_heap: "uncopied h0 (s\<lparr>heap := h2\<rparr>) = uncopied h0 s"
  by (simp add: uncopied_def)

lemma need_heap: "need h0 rk K (s\<lparr>heap := h2\<rparr>) v = need h0 rk K s v"
  by (simp add: need_def uncopied_heap)

lemma forEach_set_memo_grows:
  assumes "memo_grows rec"
  shows "forEach_set rec t xs s = Inr s' \<Longrightarrow> memo s a \<noteq> None \<Longrightarrow> memo s' a \<noteq> None"
proof (induction xs arbitrary: s)
  case Nil
  then show ?case by simp
next
  case (Cons x xs)
  from Cons.prems(1) obtain r s1 where r: "rec x s = Inr (r, s1)"
    and rest: "forEach_set rec t xs (s1\<lparr>heap := upd_obj t (set_add (data r)) (heap s1)\<rparr>) = Inr s'"
    by (auto split: sum.splits)
  from memo_growsD[OF assms r Cons.prems(2)] Cons.IH[OF rest] show ?case by simp
qed

lemma forEach_map_memo_grows:
  assumes "memo_grows rec"
  shows "forEach_map rec t kvs s = Inr s' \<Longrightarrow> memo s a \<noteq> None \<Longrightarrow> memo s' a \<noteq> None"
proof (induction kvs arbitrary: s)
  case Nil
  then show ?case by simp
next
  case (Cons kv kvs)
  obtain k v where kv: "kv = (k, v)" by (cases kv)
  from Cons.prems(1) kv obtain kr s1 vr s2 where rk: "rec k s = Inr (kr, s1)"
    and rv: "rec v s1 = Inr (vr, s2)"
    and rest: "forEach_map rec t kvs
        (s2\<lparr>heap := upd_obj t (map_set (data kr) (data vr)) (heap s2)\<rparr>) = Inr s'"
    by (auto split: sum.splits)
  from memo_growsD[OF assms rv memo_growsD[OF assms rk Cons.prems(2)]] Cons.IH[OF rest]
  show ?case by simp
qed

lemma forEach_keys_memo_grows:
  assumes "memo_grows rec"
  shows "forEach_keys rec a' t ks s = Inr s' \<Longrightarrow> memo s a \<noteq> None \<Longrightarrow> memo s' a \<noteq> None"
proof (induction ks arbitrary: s)
  case Nil
  then show ?case by simp
next
  case (Cons k ks)
  from Cons.prems(1) obtain r s1 h2 where r: "rec (get_prop (heap s) a' k) s = Inr (r, s1)"
    and rest: "forEach_keys rec a' t ks (s1\<lparr>heap := h2\<rparr>) = Inr s'"
    by (auto split: sum.splits)
  from memo_growsD[OF assms r Cons.prems(2)] Cons.IH[OF rest] show ?case by simp
qed

lemma deepCopy_obj_memo_grows:
  assumes mg: "memo_grows rec" and call: "deepCopy_obj rec a' ob s = Inr (r, s')"
    and m: "memo s a \<noteq> None"
  shows "memo s' a \<noteq> None"
proof (cases ob)
  case (ODate tv)
  with call m show ?thesis by (auto simp: deepCopy_obj_def alloc_def)
next
  case (ORegExp p f li)
  with call m show ?thesis by (auto simp: deepCopy_obj_def alloc_def)
next
  case (OSet xs)
  let ?s2 = "memo_set a' (Ref (length (heap s))) (s\<lparr>heap := heap s @ [OSet []]\<rparr>)"
  from call OSet have loop: "forEach_set rec (length (heap s)) xs ?s2 = Inr s'"
    by (auto simp: deepCopy_obj_def alloc_def split: sum.splits)
  have "memo ?s2 a \<noteq> None" using m by (simp add: memo_set_def)
  with forEach_set_memo_grows[OF mg loop] show ?thesis by simp
next
  case (OMap kvs)
  let ?s2 = "memo_set a' (Ref (length (heap s))) (s\<lparr>heap := heap s @ [OMap []]\<rparr>)"
  from call OMap have loop: "forEach_map rec (length (heap s)) kvs ?s2 = Inr s'"
    by (auto simp: deepCopy_obj_def alloc_def split: sum.splits)
  have "memo ?s2 a \<noteq> None" using m by (simp add: memo_set_def)
  with forEach_map_memo_grows[OF mg loop] show ?thesis by simp
next
  case (OObj b ps)
  show ?thesis
  proof (cases "memo s a'")
    case (Some c)
    with call OObj m show ?thesis by (auto simp: deepCopy_obj_def)
  next
    case None
    let ?s2 = "memo_set a' (Ref (length (heap s))) (s\<lparr>heap := heap s @ [new_container b]\<rparr>)"
    from call OObj None
    have loop: "forEach_keys rec a' (length (heap s)) (map fst ps) ?s2 = Inr s'"
      by (auto simp: deepCopy_obj_def alloc_def split: sum.splits)
    have "memo ?s2 a \<noteq> None" using m by (simp add: memo_set_def)
    with forEach_keys_memo_grows[OF mg loop] show ?thesis by simp
  qed
qed

lemma deepCopy_memo_grows: "memo_grows (deepCopy n)"
proof (induction n)
  case 0
  show ?case by (simp add: memo_grows_def)
next
  case (Suc n)
  show ?case unfolding memo_grows_def
  proof (intro allI impI)
    fix v s r s' a
    assume call: "deepCopy (Suc n) v s = Inr (r, s')" and m: "memo s a \<noteq> None"
    show "memo s' a \<noteq> None"
    proof (cases v)
      case (Prim p)
      with call m show ?thesis by auto
    next
      case (Ref a')
      with call obtain ob where "deepCopy_obj (deepCopy n) a' ob s = Inr (r, s')"
        by (auto split: option.splits)
      with Suc show ?thesis using m by (rule deepCopy_obj_memo_grows)
    qed
  qed
qed

lemma deepCopy_prim_id: "prim_id (deepCopy n)"
  unfolding prim_id_def by (cases n) auto

lemma keeps_base:
  assumes "keeps (length h0) h0 h" "keeps (length h) h h1"
  shows "keeps (length h0) h0 h1"
  using assms(1) keeps_le[OF assms(2) keeps_length[OF assms(1)]] by (rule keeps_trans)

lemma forEach_set_total:
  assumes fr: "framed rec" and mg: "memo_grows rec" and tot: "returns_on h0 rk K n rec"
    and t: "length h0 \<le> t"
  shows "keeps (length h0) h0 (heap s) \<Longrightarrow> list_all (val_ok (length h0)) xs \<Longrightarrow>
     (\<forall>x \<in> set xs. need h0 rk K s x \<le> n) \<Longrightarrow> \<exists>s'. forEach_set rec t xs s = Inr s'"
proof (induction xs arbitrary: s)
  case Nil
  show ?case by simp
next
  case (Cons x xs)
  have "\<exists>r s1. rec x s = Inr (r, s1)"
    using tot Cons.prems(1) by (rule returns_onD) (use Cons.prems(2,3) in simp_all)
  then obtain r s1 where r: "rec x s = Inr (r, s1)" by blast
  let ?s2 = "s1\<lparr>heap := upd_obj t (set_add (data r)) (heap s1)\<rparr>"
  have k1: "keeps (length h0) h0 (heap s1)" using Cons.prems(1) framedD[OF fr r] by (rule keeps_base)
  have k2: "keeps (length h0) h0 (heap ?s2)"
    using k1 keeps_upd_obj[OF t] by (auto intro: keeps_trans)
  have nd: "\<forall>y \<in> set xs. need h0 rk K ?s2 y \<le> n"
  proof
    fix y assume y: "y \<in> set xs"
    have "need h0 rk K s1 y \<le> need h0 rk K s y"
      by (rule need_mono) (rule memo_growsD[OF mg r])
    moreover have "need h0 rk K s y \<le> n" using Cons.prems(3) y by simp
    ultimately have "need h0 rk K s1 y \<le> n" by (rule order_trans)
    then show "need h0 rk K ?s2 y \<le> n" by (simp add: need_heap)
  qed
  from Cons.IH[OF k2 _ nd] Cons.prems(2) obtain s' where "forEach_set rec t xs ?s2 = Inr s'" by auto
  with r show ?case by simp
qed

lemma forEach_map_total:
  assumes fr: "framed rec" and mg: "memo_grows rec" and tot: "returns_on h0 rk K n rec"
    and t: "length h0 \<le> t"
  shows "keeps (length h0) h0 (heap s) \<Longrightarrow> list_all (val_ok (length h0)) (map fst kvs) \<Longrightarrow>
     list_all (val_ok (length h0)) (map snd kvs) \<Longrightarrow>
     (\<forall>x \<in> set (map fst kvs) \<union> set (map snd kvs). need h0 rk K s x \<le> n) \<Longrightarrow>
     \<exists>s'. forEach_map rec t kvs s = Inr s'"
proof (induction kvs arbitrary: s)
  case Nil
  show ?case by simp
next
  case (Cons kv kvs)
  obtain k v where kv: "kv = (k, v)" by (cases kv)
  have "\<exists>r s1. rec k s = Inr (r, s1)"
    using tot Cons.prems(1) by (rule returns_onD) (use Cons.prems(2,4) kv in simp_all)
  then obtain kr s1 where rk: "rec k s = Inr (kr, s1)" by blast
  have k1: "keeps (length h0) h0 (heap s1)" using Cons.prems(1) framedD[OF fr rk] by (rule keeps_base)
  have n1: "need h0 rk K s1 y \<le> need h0 rk K s y" for y
    by (rule need_mono) (rule memo_growsD[OF mg rk])
  have "need h0 rk K s v \<le> n" using Cons.prems(4) kv by simp
  with n1[of v] have nv: "need h0 rk K s1 v \<le> n" by (rule order_trans)
  have okv: "val_ok (length h0) v" using Cons.prems(3) kv by simp
  have "\<exists>r s2. rec v s1 = Inr (r, s2)" using tot k1 okv nv by (rule returns_onD)
  then obtain vr s2 where rv: "rec v s1 = Inr (vr, s2)" by blast
  have k2: "keeps (length h0) h0 (heap s2)" using k1 framedD[OF fr rv] by (rule keeps_base)
  have n2: "need h0 rk K s2 y \<le> need h0 rk K s1 y" for y
    by (rule need_mono) (rule memo_growsD[OF mg rv])
  let ?s3 = "s2\<lparr>heap := upd_obj t (map_set (data kr) (data vr)) (heap s2)\<rparr>"
  have k3: "keeps (length h0) h0 (heap ?s3)"
    using k2 keeps_upd_obj[OF t] by (auto intro: keeps_trans)
  have nd: "\<forall>y \<in> set (map fst kvs) \<union> set (map snd kvs). need h0 rk K ?s3 y \<le> n"
  proof
    fix y assume y: "y \<in> set (map fst kvs) \<union> set (map snd kvs)"
    then have "need h0 rk K s y \<le> n" using Cons.prems(4) by auto
    with n1[of y] have "need h0 rk K s1 y \<le> n" by (rule order_trans)
    with n2[of y] have "need h0 rk K s2 y \<le> n" by (rule order_trans)
    then show "need h0 rk K ?s3 y \<le> n" by (simp add: need_heap)
  qed
  from Cons.IH[OF k3 _ _ nd] Cons.prems(2,3)
  obtain s' where "forEach_map rec t kvs ?s3 = Inr s'" by auto
  with rk rv kv show ?case by simp
qed

lemma assign_props_ok:
  assumes "b \<Longrightarrow> k = KStr ''length'' \<Longrightarrow> valid_length v"
  shows "\<exists>ps'. assign_props b k v ps = Inr ps'"
proof (cases "b \<and> k = KStr ''length''")
  case True
  with assms have "valid_length v" by simp
  then obtain n where "v = Prim (Num n)" "0 \<le> n" "n < 2 ^ 32"
    by (auto simp: valid_length_def split: val.splits prim.splits)
  with True show ?thesis by (simp add: assign_props_def)
next
  case False
  then show ?thesis by (cases k) (auto simp: assign_props_def)
qed

lemma forEach_keys_total:
  assumes fr: "framed rec" and mg: "memo_grows rec" and pid: "prim_id rec"
    and tot: "returns_on h0 rk K n rec"
    and src: "deref h0 a = Some (OObj b ps)" and wfo: "wf_obj (length h0) (OObj b ps)"
    and t: "length h0 \<le> t"
  shows "keeps (length h0) h0 (heap s) \<Longrightarrow> deref (heap s) t = Some (OObj b tps) \<Longrightarrow>
     (\<forall>k \<in> set ks. need h0 rk K s (prop_val ps k) \<le> n) \<Longrightarrow>
     \<exists>s'. forEach_keys rec a t ks s = Inr s'"
proof (induction ks arbitrary: s tps)
  case Nil
  show ?case by simp
next
  case (Cons k ks)
  have vals: "list_all (val_ok (length h0)) (map (fst \<circ> snd) ps)" using wfo by simp
  have "deref (heap s) a = Some (OObj b ps)"
    using Cons.prems(1) deref_lt[OF src] src by (rule keeps_deref)
  then have gp: "get_prop (heap s) a k = prop_val ps k" by (simp add: get_prop_def)
  have "\<exists>r s1. rec (prop_val ps k) s = Inr (r, s1)"
    using tot Cons.prems(1) prop_val_ok[OF vals] by (rule returns_onD) (use Cons.prems(3) in simp)
  then obtain r s1 where r: "rec (prop_val ps k) s = Inr (r, s1)" by blast
  have k1: "keeps (length h0) h0 (heap s1)" using Cons.prems(1) framedD[OF fr r] by (rule keeps_base)
  have t1: "deref (heap s1) t = Some (OObj b tps)"
    using framedD[OF fr r] deref_lt[OF Cons.prems(2)] Cons.prems(2) by (rule keeps_deref)
  have "\<exists>tps2. assign_props b k (data r) tps = Inr tps2"
  proof (rule assign_props_ok)
    assume b: "b" and kl: "k = KStr ''length''"
    from wfo b have v: "valid_length (prop_val ps (KStr ''length''))" by simp
    then obtain p where p: "prop_val ps (KStr ''length'') = Prim p"
      by (auto simp: valid_length_def split: val.splits)
    with r kl have "data r = Prim p" using prim_idD[OF pid] by simp
    with v p show "valid_length (data r)" by simp
  qed
  then obtain tps2 where ap: "assign_props b k (data r) tps = Inr tps2" by blast
  let ?h2 = "(heap s1)[t := OObj b tps2]"
  have asg: "assign t k (data r) (heap s1) = Inr ?h2" using t1 ap by (simp add: assign_def)
  have k2: "keeps (length h0) h0 (heap (s1\<lparr>heap := ?h2\<rparr>))"
    using k1 keeps_assign[OF asg t] by (auto intro: keeps_trans)
  have t2: "deref (heap (s1\<lparr>heap := ?h2\<rparr>)) t = Some (OObj b tps2)"
    using deref_lt[OF t1] by (simp add: deref_def)
  have nd: "\<forall>k' \<in> set ks. need h0 rk K (s1\<lparr>heap := ?h2\<rparr>) (prop_val ps k') \<le> n"
  proof
    fix k' assume k': "k' \<in> set ks"
    have "need h0 rk K s1 (prop_val ps k') \<le> need h0 rk K s (prop_val ps k')"
      by (rule need_mono) (rule memo_growsD[OF mg r])
    moreover have "need h0 rk K s (prop_val ps k') \<le> n" using Cons.prems(3) k' by simp
    ultimately have "need h0 rk K s1 (prop_val ps k') \<le> n" by (rule order_trans)
    then show "need h0 rk K (s1\<lparr>heap := ?h2\<rparr>) (prop_val ps k') \<le> n"
      by (simp add: need_heap)
  qed
  from Cons.IH[OF k2 t2 nd] obtain s' where "forEach_keys rec a t ks (s1\<lparr>heap := ?h2\<rparr>) = Inr s'"
    by blast
  with r gp asg show ?case by simp
qed

lemma rankedD:
  "ranked h rk K \<Longrightarrow> a < length h \<Longrightarrow> ranked_obj h rk a (h ! a) \<and> rk a \<le> K"
  by (simp add: ranked_def list_all_iff)

lemma depth_le: "ranked h rk K \<Longrightarrow> depth_of h rk v \<le> K + 1"
proof (cases v)
  case (Prim p)
  then show ?thesis by (simp add: depth_of_def)
next
  case (Ref a)
  assume r: "ranked h rk K"
  show ?thesis
  proof (cases "is_set_or_map h a")
    case True
    then have "a < length h"
      by (auto simp: is_set_or_map_def deref_def split: if_splits)
    with rankedD[OF r] Ref True show ?thesis by (simp add: depth_of_def)
  next
    case False
    with Ref show ?thesis by (simp add: depth_of_def)
  qed
qed

lemma depth_child: "rank_ok h rk a x \<Longrightarrow> depth_of h rk x \<le> rk a"
  by (cases x) (auto simp: rank_ok_def depth_of_def)

lemma need_memo_set_other:
  assumes "\<not> generic h0 a"
  shows "need h0 rk K (memo_set a v (s\<lparr>heap := h2\<rparr>)) x = need h0 rk K s x"
proof -
  have "uncopied h0 (memo_set a v (s\<lparr>heap := h2\<rparr>)) = uncopied h0 s"
    using assms by (auto simp: uncopied_def memo_set_def)
  then show ?thesis by (simp add: need_def)
qed

lemma card_uncopied_memo_set:
  assumes "generic h0 a" "a < length h0" "memo s a = None"
  shows "card (uncopied h0 (memo_set a v (s\<lparr>heap := h2\<rparr>))) + 1 = card (uncopied h0 s)"
proof -
  have a: "a \<in> uncopied h0 s" using assms by (simp add: uncopied_def)
  have "uncopied h0 (memo_set a v (s\<lparr>heap := h2\<rparr>)) = uncopied h0 s - {a}"
    by (auto simp: uncopied_def memo_set_def)
  then have "card (uncopied h0 (memo_set a v (s\<lparr>heap := h2\<rparr>))) = card (uncopied h0 s) - 1"
    using a by (simp add: finite_uncopied)
  moreover have "0 < card (uncopied h0 s)" using a finite_uncopied[of h0 s] by (auto simp: card_gt_0_iff)
  ultimately show ?thesis by simp
qed

lemma deepCopy_obj_total:
  assumes wf: "wf_heap h0" and rkd: "ranked h0 rk K"
    and fr: "framed rec" and mg: "memo_grows rec" and pid: "prim_id rec"
    and tot: "returns_on h0 rk K n rec"
    and k: "keeps (length h0) h0 (heap s)" and src: "deref h0 a = Some ob"
    and nd: "need h0 rk K s (Ref a) \<le> Suc n"
  shows "\<exists>r s'. deepCopy_obj rec a ob s = Inr (r, s')"
proof -
  let ?t = "length (heap s)"
  have L0: "length h0 \<le> ?t" using k by (rule keeps_length)
  have a: "a < length h0" using src by (rule deref_lt)
  have wfo: "wf_obj (length h0) ob" using wf src by (rule wf_heapD)
  have ob: "h0 ! a = ob" using src by (rule deref_nth)
  have k2: "keeps (length h0) h0 (heap (memo_set a (Ref ?t) (s\<lparr>heap := heap s @ [ob']\<rparr>)))" for ob'
    using k keeps_append[OF L0, of "[ob']"] by (auto simp: memo_set_def intro: keeps_trans)
  show ?thesis
  proof (cases ob)
    case (ODate tv)
    then show ?thesis by (simp add: deepCopy_obj_def alloc_def)
  next
    case (ORegExp p f li)
    then show ?thesis by (simp add: deepCopy_obj_def alloc_def)
  next
    case (OSet xs)
    let ?s2 = "memo_set a (Ref ?t) (s\<lparr>heap := heap s @ [OSet []]\<rparr>)"
    have ng: "\<not> generic h0 a" using src OSet by (simp add: generic_def)
    have sm: "is_set_or_map h0 a" using src OSet by (simp add: is_set_or_map_def)
    from nd sm have bound: "card (uncopied h0 s) * (K + 2) + rk a + 1 \<le> n"
      by (simp add: need_def depth_of_def)
    have ro: "list_all (rank_ok h0 rk a) xs" using rankedD[OF rkd a] ob OSet by simp
    have "\<forall>x \<in> set xs. need h0 rk K ?s2 x \<le> n"
    proof
      fix x assume "x \<in> set xs"
      with ro have "rank_ok h0 rk a x" by (simp add: list_all_iff)
      then have "depth_of h0 rk x \<le> rk a" by (rule depth_child)
      with bound show "need h0 rk K ?s2 x \<le> n"
        unfolding need_memo_set_other[OF ng] by (simp add: need_def)
    qed
    with forEach_set_total[OF fr mg tot L0 k2, of xs "OSet []"] wfo OSet
    obtain s' where "forEach_set rec ?t xs ?s2 = Inr s'" by auto
    with OSet show ?thesis by (simp add: deepCopy_obj_def alloc_def)
  next
    case (OMap kvs)
    let ?s2 = "memo_set a (Ref ?t) (s\<lparr>heap := heap s @ [OMap []]\<rparr>)"
    have ng: "\<not> generic h0 a" using src OMap by (simp add: generic_def)
    have sm: "is_set_or_map h0 a" using src OMap by (simp add: is_set_or_map_def)
    from nd sm have bound: "card (uncopied h0 s) * (K + 2) + rk a + 1 \<le> n"
      by (simp add: need_def depth_of_def)
    have ro: "list_all (rank_ok h0 rk a) (map fst kvs)" "list_all (rank_ok h0 rk a) (map snd kvs)"
      using rankedD[OF rkd a] ob OMap by simp_all
    have "\<forall>x \<in> set (map fst kvs) \<union> set (map snd kvs). need h0 rk K ?s2 x \<le> n"
    proof
      fix x assume "x \<in> set (map fst kvs) \<union> set (map snd kvs)"
      with ro have "rank_ok h0 rk a x" unfolding list_all_iff by blast
      then have "depth_of h0 rk x \<le> rk a" by (rule depth_child)
      with bound show "need h0 rk K ?s2 x \<le> n"
        unfolding need_memo_set_other[OF ng] by (simp add: need_def)
    qed
    with forEach_map_total[OF fr mg tot L0 k2, of kvs "OMap []"] wfo OMap
    obtain s' where "forEach_map rec ?t kvs ?s2 = Inr s'" by auto
    with OMap show ?thesis by (simp add: deepCopy_obj_def alloc_def)
  next
    case (OObj b ps)
    show ?thesis
    proof (cases "memo s a")
      case (Some c)
      with OObj show ?thesis by (simp add: deepCopy_obj_def)
    next
      case None
      let ?s2 = "memo_set a (Ref ?t) (s\<lparr>heap := heap s @ [new_container b]\<rparr>)"
      have g: "generic h0 a" using src OObj by (simp add: generic_def)
      have nsm: "\<not> is_set_or_map h0 a" using src OObj by (simp add: is_set_or_map_def)
      from nd nsm have bound: "card (uncopied h0 s) * (K + 2) \<le> n"
        by (simp add: need_def depth_of_def)
      have c: "card (uncopied h0 ?s2) + 1 = card (uncopied h0 s)"
        using g a None by (rule card_uncopied_memo_set)
      have "\<forall>k \<in> set (map fst ps). need h0 rk K ?s2 (prop_val ps k) \<le> n"
      proof
        fix k'
        have "depth_of h0 rk (prop_val ps k') \<le> K + 1" using rkd by (rule depth_le)
        then have "need h0 rk K ?s2 (prop_val ps k') \<le> (card (uncopied h0 ?s2) + 1) * (K + 2)"
          by (simp add: need_def)
        also have "\<dots> = card (uncopied h0 s) * (K + 2)" using c by simp
        finally show "need h0 rk K ?s2 (prop_val ps k') \<le> n" using bound by simp
      qed
      moreover have "deref (heap ?s2) ?t = Some (new_container b)"
        by (simp add: memo_set_def deref_def)
      moreover have src': "deref h0 a = Some (OObj b ps)" using src OObj by simp
      moreover have "wf_obj (length h0) (OObj b ps)" using wfo OObj by simp
      ultimately obtain s' where "forEach_keys rec a ?t (map fst ps) ?s2 = Inr s'"
        using forEach_keys_total[OF fr mg pid tot _ _ L0 k2, of a b ps "new_container b" _ "map fst ps"]
        by (auto simp: new_container_def)
      with OObj None show ?thesis by (simp add: deepCopy_obj_def alloc_def)
    qed
  qed
qed

lemma deepCopy_total:
  assumes wf: "wf_heap h0" and rkd: "ranked h0 rk K"
  shows "returns_on h0 rk K n (deepCopy n)"
proof (induction n)
  case 0
  show ?case by (simp add: returns_on_def need_def)
next
  case (Suc n)
  show ?case unfolding returns_on_def
  proof (intro allI impI)
    fix v s
    assume k: "keeps (length h0) h0 (heap s)" and ok: "val_ok (length h0) v"
      and nd: "need h0 rk K s v \<le> Suc n"
    show "\<exists>r s'. deepCopy (Suc n) v s = Inr (r, s')"
    proof (cases v)
      case (Prim p)
      then show ?thesis by simp
    next
      case (Ref a)
      with ok have a: "a < length h0" by (simp add: val_ok_def)
      then have src: "deref h0 a = Some (h0 ! a)" by (simp add: deref_def)
      have "deref (heap s) a = Some (h0 ! a)" using k a src by (rule keeps_deref)
      moreover have "\<exists>r s'. deepCopy_obj (deepCopy n) a (h0 ! a) s = Inr (r, s')"
        using wf rkd deepCopy_framed deepCopy_memo_grows deepCopy_prim_id Suc k src nd[unfolded Ref]
        by (rule deepCopy_obj_total)
      ultimately show ?thesis using Ref by simp
    qed
  qed
qed

text \<open>
  On a well-formed heap whose \<open>Set\<close> and \<open>Map\<close> objects are ranked, \<open>deepClone\<close> returns
  for every value, cyclic or not, when the call stack has room for
  \<open>length h * (K + 2) + K + 2\<close> frames.
\<close>

lemma deepClone_returns:
  assumes wf: "wf_heap h" and rkd: "ranked h rk K" and ok: "val_ok (length h) v"
    and n: "length h * (K + 2) + K + 2 \<le> n"
  shows "\<exists>r h'. deepClone n v h = Inr (r, h')"
proof -
  let ?s = "\<lparr>heap = h, memo = Map.empty\<rparr>"
  have "uncopied h ?s \<subseteq> {..<length h}" by (auto simp: uncopied_def)
  then have "card (uncopied h ?s) \<le> card {..<length h}" by (intro card_mono) simp_all
  then have "card (uncopied h ?s) \<le> length h" by simp
  then have "card (uncopied h ?s) * (K + 2) \<le> length h * (K + 2)" by (rule mult_le_mono1)
  moreover have "depth_of h rk v \<le> K + 1" using rkd by (rule depth_le)
  ultimately have nd: "need h rk K ?s v \<le> n" using n by (simp add: need_def)
  have k: "keeps (length h) h (heap ?s)" by (simp add: keeps_refl)
  from returns_onD[OF deepCopy_total[OF wf rkd] k ok nd]
  obtain r s' where "deepCopy n v ?s = Inr (r, s')" by blast
  then show ?thesis by (simp add: deepClone_def)
qed

section \<open>One clone for each reference to a Date, RegExp, Set or Map\<close>






section \<open>Further consequences for one call of deepClone\<close>

subsection \<open>Arrays and plain objects, for a call that returns\<close>

text \<open>
  What a call of \<open>deepClone\<close> on an array or plain object has done when it returns: the
  result is a new container of the same shape at the first free address, with the own
  keys of the source, all of them enumerable but for the \<open>length\<close> of an array; it is
  structurally equal to the source to every depth, the attributes of the keys apart; the
  objects that the call made refer to objects that the call made, and the objects of the
  source heap are as they were.
\<close>

lemma deepClone_generic_partial:
  assumes wf: "wf_heap h" and src: "deref h a = Some (OObj b ps)"
    and call: "deepClone n (Ref a) h = Inr (r, h')"
  shows "data r = Ref (length h) \<and> keeps (length h) h h' \<and>
     (\<exists>qs. deref h' (length h) = Some (OObj b qs) \<and> set (map fst qs) = set (map fst ps) \<and>
           list_all (enum_ok b) qs) \<and>
     (\<forall>d. deep_equal False d h' (Ref a) (Ref (length h))) \<and>
     fresh_closed (length h) h'"
proof -
  have ok: "val_ok (length h) (Ref a)" using deref_lt[OF src] by (simp add: val_ok_def)
  have k: "keeps (length h) h h'" using call by (rule deepClone_keeps)
  from deepClone_generic_container[OF src call] obtain qs where d: "data r = Ref (length h)"
    and qs: "deref h' (length h) = Some (OObj b qs)" and en: "list_all (enum_ok b) qs"
    by blast
  have de: "deep_equal False d h' (Ref a) (Ref (length h))" for d
    using deepClone_deep_equal[OF wf ok call, of d] d by simp
  have src': "deref h' a = Some (OObj b ps)" using k deref_lt[OF src] src by (rule keeps_deref)
  have "set (map fst qs) = set (map fst ps)"
    using de[of "Suc 0"] src' qs by (rule deep_equal_keys)
  moreover have "fresh_closed (length h) h'" using deepClone_fresh[OF call] by simp
  ultimately show ?thesis using d k qs en de by blast
qed

subsection \<open>A field that refers to the object itself\<close>

text \<open>
  For the record \<open>a\<close> whose one field \<open>self\<close> is \<open>a\<close> itself, anywhere in any heap,
  \<open>deepClone(a)\<close> returns with a call stack of two frames or more, and the result is a
  new record \<open>b\<close> whose field \<open>self\<close> is the reference \<open>b\<close>; the record \<open>a\<close> is as before.
\<close>

lemma deepClone_self_only:
  "deref h a = Some (OObj False [(KStr ''self'', Ref a, e)]) \<Longrightarrow>
   deepClone (Suc (Suc n)) (Ref a) h =
     Inr (\<lparr>status = True, msg = MsgObject, data = Ref (length h)\<rparr>,
          h @ [OObj False [(KStr ''self'', Ref (length h), True)]])"
  by (frule deref_lt)
     (simp add: deepClone_def deepCopy_obj_def alloc_def memo_set_def new_container_def
        get_prop_def prop_val_def assign_def assign_props_def put_prop_def has_key_def
        deref_append deref_length_append)

text \<open>
  For an array or object with a field that is the object itself, and any other fields, in
  a well-formed heap whose \<open>Set\<close> and \<open>Map\<close> objects are ranked: the call returns, and the
  field of the clone is the clone itself.
\<close>

lemma deepClone_self_field_returns:
  assumes wf: "wf_heap h" and rkd: "ranked h rk K" and root: "deref h a = Some (OObj b ps)"
    and k: "k \<in> fst ` set ps" "prop_val ps k = Ref a"
    and n: "length h * (K + 2) + K + 2 \<le> n"
  shows "\<exists>r h'. deepClone n (Ref a) h = Inr (r, h') \<and> data r = Ref (length h) \<and>
     get_prop h' (length h) k = Ref (length h)"
proof -
  have ok: "val_ok (length h) (Ref a)" using deref_lt[OF root] by (simp add: val_ok_def)
  from deepClone_returns[OF wf rkd ok n] obtain r h' where call: "deepClone n (Ref a) h = Inr (r, h')"
    by blast
  from deepClone_self_field[OF wf root k call] obtain t where t: "data r = Ref t" "get_prop h' t k = Ref t"
    by blast
  from deepClone_generic_container[OF root call] t have "t = length h" by simp
  with t call show ?thesis by simp
qed

subsection \<open>Two calls on one object\<close>

text \<open>
  Two calls of \<open>deepCopy\<close> on the same object within one traversal, the second in a
  state in which the heap has not shrunk and the \<open>WeakMap\<close> holds for the object what it
  held when the first call returned: when both return, they return the same clone if,
  and only if, the object is an array or plain object.
\<close>

lemma deepCopy_second_call:
  assumes src: "deref (heap s) a = Some ob"
    and first: "deepCopy n (Ref a) s = Inr (r1, s1)"
    and src': "deref (heap s1') a = Some ob"
    and later: "length (heap s1) \<le> length (heap s1')"
    and memo': "memo s1' a = memo s1 a"
    and second: "deepCopy m (Ref a) s1' = Inr (r2, s2)"
  shows "(data r2 = data r1) = generic (heap s) a"
proof (cases "generic (heap s) a")
  case True
  from first True have m1: "memo s1 a = Some (data r1)" by (rule deepCopy_generic_memo)
  have g': "generic (heap s1') a" using True src src' by (simp add: generic_def)
  from deepCopy_generic_memo[OF second g'] have "memo s2 a = Some (data r2)" .
  moreover have "memo s2 a = Some (data r1)"
    using deepCopy_memo_kept second g' _ by (rule memo_keptD) (simp add: memo' m1)
  ultimately show ?thesis using True by simp
next
  case False
  then have ng': "\<not> generic (heap s1') a" using src src' by (simp add: generic_def)
  from deepCopy_not_generic_fresh[OF first src False]
  have 1: "data r1 = Ref (length (heap s))" "length (heap s) < length (heap s1)" by simp_all
  from deepCopy_not_generic_fresh[OF second src' ng']
  have 2: "data r2 = Ref (length (heap s1'))" by simp
  from 1 2 later False show ?thesis by simp
qed

subsection \<open>Examples\<close>

text \<open>
  A \<open>RegExp\<close> that two fields share, \<open>shared = /a+/g\<close>, \<open>root = {x: shared, y: shared}\<close>: the
  fields of the clone are two new \<open>RegExp\<close> objects.
\<close>

lemma deepClone_shared_regexp_example:
  "deepClone 2 (Ref 0)
     [OObj False [(KStr ''x'', Ref 1, True), (KStr ''y'', Ref 1, True)], ORegExp ''a+'' ''g'' 0]
     = Inr (\<lparr>status = True, msg = MsgObject, data = Ref 2\<rparr>,
            [OObj False [(KStr ''x'', Ref 1, True), (KStr ''y'', Ref 1, True)], ORegExp ''a+'' ''g'' 0,
             OObj False [(KStr ''x'', Ref 3, True), (KStr ''y'', Ref 4, True)],
             ORegExp ''a+'' ''g'' 0, ORegExp ''a+'' ''g'' 0])"
  by (simp add: deepClone_def deref_def deepCopy_obj_def alloc_def memo_set_def new_container_def
        get_prop_def prop_val_def assign_def assign_props_def put_prop_def has_key_def
        upd_obj_def set_lastIndex_def eval_nat_numeral)

text \<open>
  Why the well-formed heaps leave out the arrays with an own property
  \<open>Symbol.unscopables\<close>: for \<open>src = [1]; src[Symbol.unscopables] = 2\<close>, where the assignment
  to \<open>src\<close> is made by \<open>Object.defineProperty\<close>, the clone has the keys \<open>0\<close> and \<open>length\<close>
  only.
\<close>

lemma deepClone_array_unscopables_key:
  "deepClone 2 (Ref 0)
     [OObj True [(KIdx 0, Prim (Num 1), True), (KStr ''length'', Prim (Num 1), False),
                 (KSym Unscopables, Prim (Num 2), True)]]
     = Inr (\<lparr>status = True, msg = MsgObject, data = Ref 1\<rparr>,
            [OObj True [(KIdx 0, Prim (Num 1), True), (KStr ''length'', Prim (Num 1), False),
                 (KSym Unscopables, Prim (Num 2), True)],
             OObj True [(KIdx 0, Prim (Num 1), True), (KStr ''length'', Prim (Num 1), False)]])"
  by (simp add: deepClone_def deref_def deepCopy_obj_def alloc_def memo_set_def new_container_def
        get_prop_def prop_val_def assign_def assign_props_def put_prop_def has_key_def array_len_def
        eval_nat_numeral)

section \<open>The claims\<close>

text \<open>
  C1. The claim: for every finite input graph, cyclic graphs of any composite kind
  included, \<open>deepClone\<close> terminates and returns a result. The code does not: for
  \<open>s = new Set(); s.add(s)\<close> the call \<open>deepCopy(s)\<close> returns at no depth of the call
  stack, since the \<open>Set\<close> branch never consults the \<open>WeakMap\<close> it fills. On every
  well-formed heap in which no \<open>Set\<close> or \<open>Map\<close> is reached from itself through \<open>Set\<close>
  and \<open>Map\<close> objects only the call does return, cycles through arrays and plain objects
  included (\<open>deepClone_returns\<close>).
\<close>

theorem deepClone_self_containing_set_overflows:
  "deepClone n (Ref 0) [OSet [Ref 0]] = Inl StackOverflow"
  using set_cycle_overflow[of "\<lparr>heap = [OSet [Ref 0]], memo = Map.empty\<rparr>" 0 "[]" "[]" n]
  by (simp add: deepClone_def deref_def)

text \<open>
  C2. The claim: for a record \<open>a\<close> with a field \<open>self\<close> that is \<open>a\<close> itself, \<open>deepClone(a)\<close>
  terminates and returns a record \<open>b\<close> whose field \<open>self\<close> is \<open>b\<close> itself. The code does
  not for \<open>s0 = new Set(); s0.add(s0); a = {s: s0}; a.self = a\<close>: the copy of the field
  \<open>s\<close> returns at no depth of the call stack, by the defect of C1, and \<open>deepCopy(a)\<close>
  returns no record. For the record with the one field \<open>self\<close> the call returns the
  record of the claim (\<open>deepClone_self_only\<close>), and so it does for every array or object,
  whatever its other fields are, in a well-formed heap in which no \<open>Set\<close> or \<open>Map\<close> is
  reached from itself through \<open>Set\<close> and \<open>Map\<close> objects only
  (\<open>deepClone_self_field_returns\<close>).
\<close>

theorem deepClone_self_field_beside_cyclic_set_overflows:
  "deepClone n (Ref 0)
     [OObj False [(KStr ''s'', Ref 1, True), (KStr ''self'', Ref 0, True)], OSet [Ref 1]]
   = Inl StackOverflow"
proof (cases n)
  case 0
  then show ?thesis by (simp add: deepClone_def)
next
  case (Suc m)
  let ?h = "[OObj False [(KStr ''s'', Ref 1, True), (KStr ''self'', Ref 0, True)], OSet [Ref 1]]"
  let ?s2 = "memo_set 0 (Ref 2) \<lparr>heap = ?h @ [new_container False], memo = Map.empty\<rparr>"
  have "deref (heap ?s2) 1 = Some (OSet (map Prim [] @ Ref 1 # []))"
    by (simp add: memo_set_def deref_def)
  then have "deepCopy m (Ref 1) ?s2 = Inl StackOverflow" by (rule set_cycle_overflow)
  then show ?thesis using Suc
    by (simp add: deepClone_def deref_def deepCopy_obj_def alloc_def get_prop_def prop_val_def
        memo_set_def numeral_2_eq_2)
qed




text \<open>
  C4. The claim: for every input, composites of any kind included, \<open>deepClone\<close> returns
  a result with \<open>status = true\<close>. Every result that \<open>deepCopy\<close> returns has
  \<open>status = true\<close> (\<open>deepCopy_status\<close>), and \<open>shallowCopy\<close> answers \<open>status = false\<close> for
  the primitives only (\<open>shallowCopy_status\<close>); but for \<open>m = new Map(); m.set("k", m)\<close> the
  call \<open>deepCopy(m)\<close> returns no result at all, at any depth of the call stack.
\<close>

theorem deepClone_map_holding_itself_overflows:
  "deepClone n (Ref 0) [OMap [(Prim (Str ''k''), Ref 0)]] = Inl StackOverflow"
  by (simp add: deepClone_def map_val_overflow deref_def)

text \<open>
  C5. For every primitive, \<open>null\<close> included, \<open>shallowCopy\<close> returns, with \<open>status = false\<close>
  and the input itself as \<open>data\<close>, and leaves the heap as it was.
\<close>

theorem shallowCopy_non_composite:
  "shallowCopy (Prim p) h = Inr (\<lparr>status = False, msg = MsgShallowFail, data = Prim p\<rparr>, h)"
  by (simp add: shallowCopy_def)

text \<open>
  C6. The claim: neither function changes its source, and \<open>deepClone\<close> applied twice to
  any value yields structurally equal results. No call that returns changes an object
  that existed before (\<open>shallowCopy_keeps\<close>, \<open>deepClone_keeps\<close>), and every result of
  \<open>deepClone\<close> is structurally equal to the source (\<open>deepClone_deep_equal\<close>); but for
  \<open>m = new Map(); m.set(m, 1)\<close> neither the first nor the second call \<open>deepCopy(m)\<close>
  yields a result, at any depth of the call stack.
\<close>

theorem deepClone_map_keyed_by_itself_overflows:
  "deepClone n (Ref 0) [OMap [(Ref 0, Prim (Num 1))]] = Inl StackOverflow"
  by (simp add: deepClone_def map_key_overflow deref_def)

text \<open>
  C7. For every \<open>RegExp\<close>, \<open>deepClone\<close> returns a new \<open>RegExp\<close> with the same source text,
  the same flags and the same \<open>lastIndex\<close>, whatever its value.
\<close>

theorem deepClone_regexp:
  "deref h a = Some (ORegExp p f li) \<Longrightarrow>
   deepClone (Suc n) (Ref a) h =
     Inr (\<lparr>status = True, msg = MsgRegExp, data = Ref (length h)\<rparr>, h @ [ORegExp p f li])"
  by (simp add: deepClone_def deepCopy_obj_def alloc_def upd_obj_def set_lastIndex_def)

theorem deepClone_regexp_witness:
  "deref [ORegExp ''a+'' ''gi'' 7] 0 = Some (ORegExp ''a+'' ''gi'' 7) \<and>
   deepClone 1 (Ref 0) [ORegExp ''a+'' ''gi'' 7] =
     Inr (\<lparr>status = True, msg = MsgRegExp, data = Ref 1\<rparr>,
          [ORegExp ''a+'' ''gi'' 7, ORegExp ''a+'' ''gi'' 7])"
  using deepClone_regexp[of "[ORegExp ''a+'' ''gi'' 7]" 0 "''a+''" "''gi''" 7 0]
  by (simp add: deref_def)

text \<open>
  C8. The claim: for every \<open>Set\<close>, \<open>deepClone\<close> returns a new \<open>Set\<close> with the clones of the
  elements in the iteration order of the original. Whenever the call returns, that is
  what it returns (\<open>deepClone_set_elements\<close>), and it returns for every \<open>Set\<close> that is not
  reached from itself through \<open>Set\<close> and \<open>Map\<close> objects (\<open>deepClone_returns\<close>); but for \<open>s = new Set([3, 1, 2]); s.add(s)\<close>
  the call \<open>deepCopy(s)\<close> returns no \<open>Set\<close>, at any depth of the call stack.
\<close>

theorem deepClone_set_with_itself_overflows:
  "deepClone n (Ref 0) [OSet [Prim (Num 3), Prim (Num 1), Prim (Num 2), Ref 0]] = Inl StackOverflow"
  using set_cycle_overflow[of
      "\<lparr>heap = [OSet [Prim (Num 3), Prim (Num 1), Prim (Num 2), Ref 0]], memo = Map.empty\<rparr>"
      0 "[Num 3, Num 1, Num 2]" "[]" n]
  by (simp add: deepClone_def deref_def)

text \<open>
  C9, as amended. For every array or plain object of a well-formed heap (no object has an
  own property \<open>__proto__\<close>, no array an own property \<open>Symbol.unscopables\<close>) in which no
  \<open>Set\<close> or \<open>Map\<close> is reached from itself through \<open>Set\<close> and \<open>Map\<close> objects only,
  \<open>deepClone\<close> with a call stack of \<open>length h * (K + 2) + K + 2\<close> frames or more returns;
  the result is a new container of the same shape, at the first free address; it has the
  same set of own keys as the source, index, string and symbol keys, enumerable or not;
  every key of it is enumerable, but for the \<open>length\<close> of an array; the clone is
  structurally equal to the source to every depth, the attributes of the keys apart; no
  object made by the call holds a reference to an object of the source heap, and the
  source heap is unchanged. The claim says that the clone is structurally equal to the
  source; a key that is not enumerable in the source is enumerable in the clone (the
  counterexample below). The two keys that the well-formed heaps leave out are not copied
  at all (\<open>deepClone_own_proto_key\<close>, \<open>deepClone_array_unscopables_key\<close>).
\<close>

theorem deepClone_generic_composite:
  assumes wf: "wf_heap h" and rkd: "ranked h rk K" and src: "deref h a = Some (OObj b ps)"
    and n: "length h * (K + 2) + K + 2 \<le> n"
  shows "\<exists>r h'. deepClone n (Ref a) h = Inr (r, h') \<and>
     data r = Ref (length h) \<and> keeps (length h) h h' \<and>
     (\<exists>qs. deref h' (length h) = Some (OObj b qs) \<and> set (map fst qs) = set (map fst ps) \<and>
           list_all (enum_ok b) qs) \<and>
     (\<forall>d. deep_equal False d h' (Ref a) (Ref (length h))) \<and>
     fresh_closed (length h) h'"
proof -
  have ok: "val_ok (length h) (Ref a)" using deref_lt[OF src] by (simp add: val_ok_def)
  from deepClone_returns[OF wf rkd ok n] obtain r h' where call: "deepClone n (Ref a) h = Inr (r, h')"
    by blast
  from deepClone_generic_partial[OF wf src call] call
  have "deepClone n (Ref a) h = Inr (r, h') \<and>
     data r = Ref (length h) \<and> keeps (length h) h h' \<and>
     (\<exists>qs. deref h' (length h) = Some (OObj b qs) \<and> set (map fst qs) = set (map fst ps) \<and>
           list_all (enum_ok b) qs) \<and>
     (\<forall>d. deep_equal False d h' (Ref a) (Ref (length h))) \<and>
     fresh_closed (length h) h'"
    by simp
  then show ?thesis by (intro exI)
qed

text \<open>
  The example of the specification: \<open>src = {a: [1, 2, 3]}\<close>. The call returns; the clone
  and its array are new objects, equal to the source to every depth.
\<close>

theorem deepClone_generic_composite_witness:
  "wf_heap [OObj False [(KStr ''a'', Ref 1, True)],
            OObj True [(KIdx 0, Prim (Num 1), True), (KIdx 1, Prim (Num 2), True),
                       (KIdx 2, Prim (Num 3), True), (KStr ''length'', Prim (Num 3), False)]] \<and>
   ranked [OObj False [(KStr ''a'', Ref 1, True)],
            OObj True [(KIdx 0, Prim (Num 1), True), (KIdx 1, Prim (Num 2), True),
                       (KIdx 2, Prim (Num 3), True), (KStr ''length'', Prim (Num 3), False)]]
     (\<lambda>a. 0) 0 \<and>
   deepClone 6 (Ref 0)
     [OObj False [(KStr ''a'', Ref 1, True)],
      OObj True [(KIdx 0, Prim (Num 1), True), (KIdx 1, Prim (Num 2), True),
                 (KIdx 2, Prim (Num 3), True), (KStr ''length'', Prim (Num 3), False)]]
   = Inr (\<lparr>status = True, msg = MsgObject, data = Ref 2\<rparr>,
       [OObj False [(KStr ''a'', Ref 1, True)],
        OObj True [(KIdx 0, Prim (Num 1), True), (KIdx 1, Prim (Num 2), True),
                   (KIdx 2, Prim (Num 3), True), (KStr ''length'', Prim (Num 3), False)],
        OObj False [(KStr ''a'', Ref 3, True)],
        OObj True [(KIdx 0, Prim (Num 1), True), (KIdx 1, Prim (Num 2), True),
                   (KIdx 2, Prim (Num 3), True), (KStr ''length'', Prim (Num 3), False)]]) \<and>
   (\<forall>d. deep_equal False d
       [OObj False [(KStr ''a'', Ref 1, True)],
        OObj True [(KIdx 0, Prim (Num 1), True), (KIdx 1, Prim (Num 2), True),
                   (KIdx 2, Prim (Num 3), True), (KStr ''length'', Prim (Num 3), False)],
        OObj False [(KStr ''a'', Ref 3, True)],
        OObj True [(KIdx 0, Prim (Num 1), True), (KIdx 1, Prim (Num 2), True),
                   (KIdx 2, Prim (Num 3), True), (KStr ''length'', Prim (Num 3), False)]]
       (Ref 0) (Ref 2)) \<and>
   fresh_closed 2
       [OObj False [(KStr ''a'', Ref 1, True)],
        OObj True [(KIdx 0, Prim (Num 1), True), (KIdx 1, Prim (Num 2), True),
                   (KIdx 2, Prim (Num 3), True), (KStr ''length'', Prim (Num 3), False)],
        OObj False [(KStr ''a'', Ref 3, True)],
        OObj True [(KIdx 0, Prim (Num 1), True), (KIdx 1, Prim (Num 2), True),
                   (KIdx 2, Prim (Num 3), True), (KStr ''length'', Prim (Num 3), False)]]"
proof -
  let ?arr = "OObj True [(KIdx 0, Prim (Num 1), True), (KIdx 1, Prim (Num 2), True),
                   (KIdx 2, Prim (Num 3), True), (KStr ''length'', Prim (Num 3), False)]"
  let ?h = "[OObj False [(KStr ''a'', Ref 1, True)], ?arr]"
  let ?h' = "[OObj False [(KStr ''a'', Ref 1, True)], ?arr, OObj False [(KStr ''a'', Ref 3, True)], ?arr]"
  have 1: "wf_heap ?h"
    by (simp add: wf_heap_def val_ok_def has_key_def array_len_def prop_val_def valid_length_def)
  have 2: "ranked ?h (\<lambda>a. 0) 0" by (simp add: ranked_def upt_rec)
  have 3: "deref ?h 0 = Some (OObj False [(KStr ''a'', Ref 1, True)])" by (simp add: deref_def)
  have 4: "length ?h * (0 + 2) + 0 + 2 \<le> (6::nat)" by simp
  have 5: "deepClone 6 (Ref 0) ?h = Inr (\<lparr>status = True, msg = MsgObject, data = Ref 2\<rparr>, ?h')"
    by (simp add: deepClone_def deref_def deepCopy_obj_def alloc_def memo_set_def new_container_def
        get_prop_def prop_val_def assign_def assign_props_def put_prop_def has_key_def array_len_def
        eval_nat_numeral)
  have L: "length ?h = 2" by simp
  from deepClone_generic_composite[OF 1 2 3 4, unfolded L] obtain r h' where r: "deepClone 6 (Ref 0) ?h = Inr (r, h')"
    and de: "\<forall>d. deep_equal False d h' (Ref 0) (Ref 2)" and fc: "fresh_closed 2 h'"
    by blast
  from r 5 have "h' = ?h'" by simp
  with de fc 1 2 5 show ?thesis by blast
qed

text \<open>
  The claim C9 as it is stated fails for
  \<open>src = Object.defineProperty({}, "hidden", {value: 1})\<close>: the clone has the key, with
  the value, but enumerable. The two are told apart by a comparison that looks at the
  enumerable keys: \<open>for-in\<close> and \<open>Object.keys\<close> find no key in the source and one key in
  the clone.
\<close>

theorem deepClone_hidden_key_counterexample:
  "deepClone 2 (Ref 0) [OObj False [(KStr ''hidden'', Prim (Num 1), False)]]
     = Inr (\<lparr>status = True, msg = MsgObject, data = Ref 1\<rparr>,
            [OObj False [(KStr ''hidden'', Prim (Num 1), False)],
             OObj False [(KStr ''hidden'', Prim (Num 1), True)]]) \<and>
   \<not> deep_equal True 1
        [OObj False [(KStr ''hidden'', Prim (Num 1), False)],
         OObj False [(KStr ''hidden'', Prim (Num 1), True)]] (Ref 0) (Ref 1) \<and>
   for_in_keys (OObj False [(KStr ''hidden'', Prim (Num 1), False)]) = [] \<and>
   for_in_keys (OObj False [(KStr ''hidden'', Prim (Num 1), True)]) = [KStr ''hidden'']"
  by (simp add: deepClone_def deref_def deepCopy_obj_def alloc_def memo_set_def new_container_def
        get_prop_def prop_val_def prop_enum_def assign_def assign_props_def put_prop_def has_key_def
        for_in_keys_def eval_nat_numeral)

text \<open>
  C10. The claim: two references, within one traversal, to the same \<open>Date\<close>, \<open>RegExp\<close>,
  \<open>Set\<close> or \<open>Map\<close> produce two distinct clone instances, and only arrays and plain objects
  are shared in the clone. The code produces no clone at all for
  \<open>s = new Set(); s.add(s); root = {x: s, y: s}\<close>: the copy of the field \<open>x\<close> returns at no
  depth of the call stack, by the defect of C1. On every well-formed heap in which no
  \<open>Set\<close> or \<open>Map\<close> is reached from itself through \<open>Set\<close> and \<open>Map\<close> objects only the call
  returns (\<open>deepClone_returns\<close>), and then two different fields that hold the same object
  hold new objects in the clone, one and the same if, and only if, the shared object is
  an array or a plain object (\<open>deepClone_shared_fields\<close>); the same holds of two calls of
  \<open>deepCopy\<close> anywhere in a traversal (\<open>deepCopy_second_call\<close>).
\<close>

theorem deepClone_shared_cyclic_set_overflows:
  "deepClone n (Ref 0)
     [OObj False [(KStr ''x'', Ref 1, True), (KStr ''y'', Ref 1, True)], OSet [Ref 1]]
   = Inl StackOverflow"
proof (cases n)
  case 0
  then show ?thesis by (simp add: deepClone_def)
next
  case (Suc m)
  let ?h = "[OObj False [(KStr ''x'', Ref 1, True), (KStr ''y'', Ref 1, True)], OSet [Ref 1]]"
  let ?s2 = "memo_set 0 (Ref 2) \<lparr>heap = ?h @ [new_container False], memo = Map.empty\<rparr>"
  have "deref (heap ?s2) 1 = Some (OSet (map Prim [] @ Ref 1 # []))"
    by (simp add: memo_set_def deref_def)
  then have "deepCopy m (Ref 1) ?s2 = Inl StackOverflow" by (rule set_cycle_overflow)
  then show ?thesis using Suc
    by (simp add: deepClone_def deref_def deepCopy_obj_def alloc_def get_prop_def prop_val_def
        memo_set_def numeral_2_eq_2)
qed

end
